theory Spec2Isabelle
  imports Complex_Main "HOL-Library.Multiset"
begin

section \<open>Data model\<close>

text \<open>
  Node ids are JavaScript strings. A node is the object \<open>{id, x, y}\<close>; an edge is the object
  \<open>{from, to, weight}\<close>. A weight is the number that \<open>parseInt\<close> returned for the value of
  the weight field: a finite IEEE double with an integer value, held here as that integer.
\<close>

type_synonym NodeId = string

record node =
  node_id :: NodeId
  pos_x :: real
  pos_y :: real

record edge =
  e_from :: NodeId
  e_to :: NodeId
  weight :: int

text \<open>
  A recorded distance is a double: a finite one (always an integer here, since it is \<open>0\<close> or
  a sum of weights), \<open>Infinity\<close> or \<open>-Infinity\<close>. The working maps \<open>distances\<close> and
  \<open>previous\<close> are JavaScript objects keyed by node id: a missing key reads as \<open>undefined\<close>,
  which is \<open>None\<close> here. In \<open>previous\<close> the value \<open>null\<close> is \<open>Some None\<close>.
  Node ids are assumed not to be names of properties of \<open>Object.prototype\<close>.
\<close>

datatype dist = Fin int | Infinity | NegInfinity

text \<open>The order \<open><=\<close> of doubles on these values.\<close>

instantiation dist :: linorder
begin

fun less_eq_dist :: "dist \<Rightarrow> dist \<Rightarrow> bool" where
  "less_eq_dist NegInfinity y = True"
| "less_eq_dist (Fin a) NegInfinity = False"
| "less_eq_dist (Fin a) (Fin b) = (a \<le> b)"
| "less_eq_dist (Fin a) Infinity = True"
| "less_eq_dist Infinity Infinity = True"
| "less_eq_dist Infinity y = False"

definition less_dist :: "dist \<Rightarrow> dist \<Rightarrow> bool" where
  "less_dist x y = (x \<le> y \<and> \<not> y \<le> x)"

instance
proof
  fix x y z :: dist
  show "(x < y) = (x \<le> y \<and> \<not> y \<le> x)" by (simp add: less_dist_def)
  show "x \<le> x" by (cases x) simp_all
  show "x \<le> y \<Longrightarrow> y \<le> z \<Longrightarrow> x \<le> z" by (cases x; cases y; cases z) simp_all
  show "x \<le> y \<Longrightarrow> y \<le> x \<Longrightarrow> x = y" by (cases x; cases y) simp_all
  show "x \<le> y \<or> y \<le> x" by (cases x; cases y) auto
qed

end

type_synonym DistanceMap = "NodeId \<rightharpoonup> dist"
type_synonym PreviousMap = "NodeId \<rightharpoonup> NodeId option"

text \<open>
  The sum of two doubles is the exact sum rounded to the nearest double, a tie going to
  the double whose significand is even, and a result of magnitude \<open>2^1024\<close> or more
  becoming an infinity. \<open>bit_length m\<close> is the number of binary digits of \<open>m\<close>; a double
  carries 53 of them, so \<open>round_mag m\<close> rounds \<open>m > 2^53\<close> to a multiple of
  \<open>2^(bit_length m - 53)\<close>. An integer of magnitude at most \<open>2^53\<close> is a double, and
  \<open>round_double\<close> leaves it as it is.
\<close>

function bit_length :: "int \<Rightarrow> nat" where
  "bit_length n = (if n \<le> 0 then 0 else Suc (bit_length (n div 2)))"
  by pat_completeness auto
termination
  by (relation "measure nat") auto

declare bit_length.simps [simp del]

definition round_mag :: "int \<Rightarrow> int" where
  "round_mag m =
     (let ulp = 2 ^ (bit_length m - 53);
          q = m div ulp;
          r = m mod ulp
      in if 2 * r < ulp then q * ulp
         else if ulp < 2 * r then (q + 1) * ulp
         else if even q then q * ulp else (q + 1) * ulp)"

definition round_double :: "int \<Rightarrow> dist" where
  "round_double x =
     (if \<bar>x\<bar> \<le> 2 ^ 53 then Fin x
      else (let m = round_mag \<bar>x\<bar> in
            if 1024 < bit_length m then (if x < 0 then NegInfinity else Infinity)
            else Fin (if x < 0 then - m else m)))"

text \<open>
  \<open>d + weight\<close> where \<open>d\<close> was read from \<open>distances\<close>: \<open>undefined + w\<close> is \<open>NaN\<close> (\<open>None\<close>),
  an infinity plus a finite weight is that infinity, and the sum of two finite doubles is
  rounded.
\<close>

fun js_plus :: "dist option \<Rightarrow> int \<Rightarrow> dist option" where
  "js_plus None w = None"
| "js_plus (Some Infinity) w = Some Infinity"
| "js_plus (Some NegInfinity) w = Some NegInfinity"
| "js_plus (Some (Fin d)) w = Some (round_double (d + w))"

text \<open>\<open>a < b\<close> on such values: any comparison with \<open>NaN\<close> or \<open>undefined\<close> is false.\<close>

fun js_less :: "dist option \<Rightarrow> dist option \<Rightarrow> bool" where
  "js_less (Some a) (Some b) = (a < b)"
| "js_less _ _ = False"

text \<open>The template literal \<open>`${a}-${b}`\<close> that names an edge for highlighting.\<close>

definition edge_label :: "NodeId \<Rightarrow> NodeId \<Rightarrow> string" where
  "edge_label a b = a @ ''-'' @ b"

section \<open>Graph authoring\<close>

datatype algo = Dijkstra | BellmanFord
datatype mode = Add | Connect | Delete | SelectSource | SelectDest
datatype direction = Uni | Bi

record ui_state =
  ui_nodes :: "node list"
  ui_edges :: "edge list"
  ui_sourceNode :: "NodeId option"
  ui_destNode :: "NodeId option"
  ui_algorithm :: algo
  ui_mode :: mode
  ui_isAnimating :: bool
  ui_connectingFrom :: "NodeId option"
  ui_draggingNode :: "NodeId option"
  ui_dragOffset :: "real \<times> real"
  ui_direction :: direction
  ui_pendingEdge :: "(NodeId \<times> NodeId) option"
  ui_showWeightModal :: bool

definition initial_state :: ui_state where
  "initial_state = \<lparr> ui_nodes = [], ui_edges = [], ui_sourceNode = None, ui_destNode = None,
     ui_algorithm = Dijkstra, ui_mode = Add, ui_isAnimating = False, ui_connectingFrom = None,
     ui_draggingNode = None, ui_dragOffset = (0, 0), ui_direction = Uni, ui_pendingEdge = None,
     ui_showWeightModal = False \<rparr>"

text \<open>Decimal rendering of \<open>nodes.length\<close> inside the template literal \<open>`N${nodes.length}`\<close>.\<close>

definition digit_char :: "nat \<Rightarrow> char" where
  "digit_char n = ''0123456789'' ! n"

function show_nat :: "nat \<Rightarrow> string" where
  "show_nat n = (if n < 10 then [digit_char n] else show_nat (n div 10) @ [digit_char (n mod 10)])"
  by pat_completeness auto
termination
  by (relation "measure id") auto

text \<open>Truthiness of a state variable that holds \<open>null\<close> or a string.\<close>

fun truthy :: "string option \<Rightarrow> bool" where
  "truthy None = False"
| "truthy (Some s) = (s \<noteq> [])"

definition openWeightModal :: "NodeId \<Rightarrow> NodeId \<Rightarrow> ui_state \<Rightarrow> ui_state" where
  "openWeightModal fromNode toNode st =
     st\<lparr> ui_pendingEdge := Some (fromNode, toNode), ui_showWeightModal := True \<rparr>"

definition closeWeightModal :: "ui_state \<Rightarrow> ui_state" where
  "closeWeightModal st =
     st\<lparr> ui_showWeightModal := False, ui_pendingEdge := None, ui_connectingFrom := None \<rparr>"

text \<open>
  \<open>handleWeightSubmit\<close>. The argument \<open>w\<close> is the value of \<open>parseInt(weightInput)\<close>:
  \<open>None\<close> is \<open>NaN\<close>. The result pairs the toast shown (if any) with the next state.
  In \<open>weight && pendingEdge\<close> the number is tested for truthiness: \<open>NaN\<close> and \<open>0\<close> are falsy.
\<close>

definition handleWeightSubmit :: "int option \<Rightarrow> ui_state \<Rightarrow> string option \<times> ui_state" where
  "handleWeightSubmit w st =
     (if ui_algorithm st = Dijkstra \<and> (case w of None \<Rightarrow> False | Some v \<Rightarrow> v < 0)
      then (Some ''Dijkstra's algorithm must have positive weight edges only.'', st)
      else
        (let st1 =
           (case (w, ui_pendingEdge st) of
              (Some v, Some (f, t)) \<Rightarrow>
                if v \<noteq> 0 then
                  (if ui_direction st = Uni
                   then st\<lparr> ui_edges := ui_edges st @ [\<lparr> e_from = f, e_to = t, weight = v \<rparr>] \<rparr>
                   else st\<lparr> ui_edges := ui_edges st @
                          [\<lparr> e_from = f, e_to = t, weight = v \<rparr>,
                           \<lparr> e_from = t, e_to = f, weight = v \<rparr>] \<rparr>)
                else st
            | _ \<Rightarrow> st)
         in (None, closeWeightModal (st1\<lparr> ui_direction := Uni \<rparr>))))"

text \<open>
  \<open>handleCanvasMouseDown\<close> at canvas position \<open>(cx, cy)\<close>. \<open>clickedNode\<close> is the first node
  whose centre is closer than 25 to the click.
\<close>

definition clickedNode :: "node list \<Rightarrow> real \<Rightarrow> real \<Rightarrow> node option" where
  "clickedNode nodes cx cy =
     find (\<lambda>n. sqrt ((pos_x n - cx) * (pos_x n - cx) + (pos_y n - cy) * (pos_y n - cy)) < 25) nodes"

definition handleCanvasMouseDown :: "real \<Rightarrow> real \<Rightarrow> ui_state \<Rightarrow> ui_state" where
  "handleCanvasMouseDown cx cy st =
     (if ui_isAnimating st then st
      else
        (case clickedNode (ui_nodes st) cx cy of
           Some c \<Rightarrow>
             (case ui_mode st of
                Add \<Rightarrow> st\<lparr> ui_draggingNode := Some (node_id c),
                           ui_dragOffset := (pos_x c - cx, pos_y c - cy) \<rparr>
              | Connect \<Rightarrow>
                  (if \<not> truthy (ui_connectingFrom st)
                   then st\<lparr> ui_connectingFrom := Some (node_id c) \<rparr>
                   else if ui_connectingFrom st \<noteq> Some (node_id c)
                   then openWeightModal (the (ui_connectingFrom st)) (node_id c) st
                   else st)
              | Delete \<Rightarrow>
                  st\<lparr> ui_nodes := filter (\<lambda>n. node_id n \<noteq> node_id c) (ui_nodes st),
                      ui_edges := filter (\<lambda>e. e_from e \<noteq> node_id c \<and> e_to e \<noteq> node_id c) (ui_edges st),
                      ui_sourceNode := (if ui_sourceNode st = Some (node_id c) then None
                                        else ui_sourceNode st),
                      ui_destNode := (if ui_destNode st = Some (node_id c) then None
                                      else ui_destNode st) \<rparr>
              | SelectSource \<Rightarrow> st\<lparr> ui_sourceNode := Some (node_id c), ui_mode := Add \<rparr>
              | SelectDest \<Rightarrow> st\<lparr> ui_destNode := Some (node_id c), ui_mode := Add \<rparr>)
         | None \<Rightarrow>
             (case ui_mode st of
                Add \<Rightarrow>
                  st\<lparr> ui_nodes := ui_nodes st @
                        [\<lparr> node_id = ''N'' @ show_nat (length (ui_nodes st)), pos_x = cx, pos_y = cy \<rparr>] \<rparr>
              | _ \<Rightarrow> st)))"



text \<open>
  The five mode buttons. The buttons Add, Connect and Delete run
  \<open>setMode(m); setConnectingFrom(null)\<close>; the buttons Source and Dest run only
  \<open>setMode('selectSource')\<close> and \<open>setMode('selectDest')\<close>, and keep \<open>connectingFrom\<close>.
\<close>

definition setMode :: "mode \<Rightarrow> ui_state \<Rightarrow> ui_state" where
  "setMode m st =
     (case m of
        SelectSource \<Rightarrow> st\<lparr> ui_mode := SelectSource \<rparr>
      | SelectDest \<Rightarrow> st\<lparr> ui_mode := SelectDest \<rparr>
      | _ \<Rightarrow> st\<lparr> ui_mode := m, ui_connectingFrom := None \<rparr>)"



section \<open>Priority queue\<close>

text \<open>
  The class \<open>MinHeap\<close>: the array \<open>this.heap\<close> of \<open>{node, priority}\<close> objects is a list, and
  every method takes the array and returns the new one. \<open>bubbleUp\<close> and \<open>bubbleDown\<close> are only
  called with an index inside the array (\<open>push\<close> passes the last index, \<open>pop\<close> passes 0 on an
  array of at least one entry). \<open>smallest_of\<close> is the part of the body of \<open>bubbleDown\<close>'s loop
  that computes \<open>smallest\<close>.
\<close>

record 'p heap_entry =
  h_node :: NodeId
  h_priority :: 'p

type_synonym 'p MinHeap = "'p heap_entry list"

function bubbleUp :: "('p::linorder) MinHeap \<Rightarrow> nat \<Rightarrow> 'p MinHeap" where
  "bubbleUp heap index =
     (if index > 0 then
        (let parentIndex = (index - 1) div 2 in
         if h_priority (heap ! parentIndex) \<le> h_priority (heap ! index) then heap
         else bubbleUp (heap[parentIndex := heap ! index, index := heap ! parentIndex]) parentIndex)
      else heap)"
  by pat_completeness auto
termination
  by (relation "measure snd") auto

declare bubbleUp.simps [simp del]

definition push :: "('p::linorder) MinHeap \<Rightarrow> NodeId \<Rightarrow> 'p \<Rightarrow> 'p MinHeap" where
  "push heap n p = bubbleUp (heap @ [\<lparr> h_node = n, h_priority = p \<rparr>]) (length heap)"

definition smallest_of :: "('p::linorder) MinHeap \<Rightarrow> nat \<Rightarrow> nat" where
  "smallest_of heap index =
     (let smallest = index;
          leftChild = 2 * index + 1;
          rightChild = 2 * index + 2;
          smallest = (if leftChild < length heap \<and>
                         h_priority (heap ! leftChild) < h_priority (heap ! smallest)
                      then leftChild else smallest);
          smallest = (if rightChild < length heap \<and>
                         h_priority (heap ! rightChild) < h_priority (heap ! smallest)
                      then rightChild else smallest)
      in smallest)"

lemma smallest_of_cases:
  "smallest_of heap index = index \<or>
   (index < smallest_of heap index \<and> smallest_of heap index < length heap)"
  by (auto simp: smallest_of_def Let_def)

function bubbleDown :: "('p::linorder) MinHeap \<Rightarrow> nat \<Rightarrow> 'p MinHeap" where
  "bubbleDown heap index =
     (let smallest = smallest_of heap index in
      if smallest = index then heap
      else bubbleDown (heap[smallest := heap ! index, index := heap ! smallest]) smallest)"
  by pat_completeness auto
termination
proof (relation "measure (\<lambda>(heap, index). length heap - index)")
  show "wf (measure (\<lambda>(heap, index). length heap - index))" by simp
next
  fix heap :: "('p::linorder) MinHeap" and index x
  assume "x = smallest_of heap index" "x \<noteq> index"
  with smallest_of_cases[of heap index]
  show "((heap[x := heap ! index, index := heap ! x], x), heap, index)
        \<in> measure (\<lambda>(heap, index). length heap - index)"
    by auto
qed

declare bubbleDown.simps [simp del]

definition pop :: "('p::linorder) MinHeap \<Rightarrow> 'p heap_entry option \<times> 'p MinHeap" where
  "pop heap =
     (if length heap = 0 then (None, heap)
      else if length heap = 1 then (Some (last heap), butlast heap)
      else (let min = heap ! 0;
                heap1 = (butlast heap)[0 := last heap]
            in (Some min, bubbleDown heap1 0)))"

definition isEmpty :: "'p MinHeap \<Rightarrow> bool" where
  "isEmpty heap = (length heap = 0)"

definition getAll :: "'p MinHeap \<Rightarrow> (NodeId \<times> 'p) list" where
  "getAll heap = map (\<lambda>item. (h_node item, h_priority item)) heap"


datatype 'p heap_op = Push NodeId 'p | Pop

fun apply_heap_op :: "('p::linorder) MinHeap \<Rightarrow> 'p heap_op \<Rightarrow> 'p MinHeap" where
  "apply_heap_op heap (Push n p) = push heap n p"
| "apply_heap_op heap Pop = snd (pop heap)"

definition run_heap_ops :: "('p::linorder) heap_op list \<Rightarrow> 'p MinHeap" where
  "run_heap_ops ops = foldl apply_heap_op [] ops"

definition heap_inv :: "('p::linorder) MinHeap \<Rightarrow> bool" where
  "heap_inv h = (\<forall>i. 0 < i \<and> i < length h \<longrightarrow> h_priority (h ! ((i - 1) div 2)) \<le> h_priority (h ! i))"

definition up_inv :: "('p::linorder) MinHeap \<Rightarrow> nat \<Rightarrow> bool" where
  "up_inv h k = ((\<forall>i. 0 < i \<and> i < length h \<and> i \<noteq> k \<longrightarrow>
                     h_priority (h ! ((i - 1) div 2)) \<le> h_priority (h ! i)) \<and>
                 (\<forall>i. 0 < i \<and> i < length h \<and> (i - 1) div 2 = k \<and> 0 < k \<longrightarrow>
                     h_priority (h ! ((k - 1) div 2)) \<le> h_priority (h ! i)))"

definition down_inv :: "('p::linorder) MinHeap \<Rightarrow> nat \<Rightarrow> bool" where
  "down_inv h k = ((\<forall>i. 0 < i \<and> i < length h \<and> (i - 1) div 2 \<noteq> k \<longrightarrow>
                     h_priority (h ! ((i - 1) div 2)) \<le> h_priority (h ! i)) \<and>
                 (\<forall>i. 0 < i \<and> i < length h \<and> (i - 1) div 2 = k \<and> 0 < k \<longrightarrow>
                     h_priority (h ! ((k - 1) div 2)) \<le> h_priority (h ! i)))"

lemma length_bubbleUp [simp]: "length (bubbleUp h k) = length h"
proof (induction h k rule: bubbleUp.induct)
  case (1 heap index)
  then show ?case by (subst bubbleUp.simps) (simp add: Let_def)
qed

lemma length_bubbleDown [simp]: "length (bubbleDown h k) = length h"
proof (induction h k rule: bubbleDown.induct)
  case (1 heap index)
  then show ?case by (subst bubbleDown.simps) (simp add: Let_def)
qed

lemma mset_bubbleUp: "k < length h \<Longrightarrow> mset (bubbleUp h k) = mset h"
proof (induction h k rule: bubbleUp.induct)
  case (1 heap index)
  show ?case
  proof (cases "0 < index \<and> \<not> h_priority (heap ! ((index - 1) div 2)) \<le> h_priority (heap ! index)")
    case True
    let ?p = "(index - 1) div 2"
    have p: "?p < length heap" using True "1.prems" by simp
    have "mset (bubbleUp heap index)
          = mset (bubbleUp (heap[?p := heap ! index, index := heap ! ?p]) ?p)"
      using True by (subst bubbleUp.simps) (simp add: Let_def)
    also have "\<dots> = mset (heap[?p := heap ! index, index := heap ! ?p])"
      using "1.IH"[of ?p] True p by simp
    also have "\<dots> = mset heap"
      using mset_swap[OF "1.prems" p] by simp
    finally show ?thesis .
  next
    case False
    then show ?thesis by (subst bubbleUp.simps) (auto simp: Let_def)
  qed
qed

lemma mset_bubbleDown: "mset (bubbleDown h k) = mset h"
proof (induction h k rule: bubbleDown.induct)
  case (1 heap index)
  let ?s = "smallest_of heap index"
  show ?case
  proof (cases "?s = index")
    case True
    then show ?thesis by (subst bubbleDown.simps) (simp add: Let_def)
  next
    case False
    with smallest_of_cases[of heap index] have r: "index < ?s" "?s < length heap" by auto
    have "mset (bubbleDown heap index)
          = mset (bubbleDown (heap[?s := heap ! index, index := heap ! ?s]) ?s)"
      using False by (subst bubbleDown.simps) (simp add: Let_def)
    also have "\<dots> = mset (heap[?s := heap ! index, index := heap ! ?s])"
      using "1.IH"[of ?s] False by simp
    also have "\<dots> = mset heap"
      using mset_swap[of index heap ?s] r by simp
    finally show ?thesis .
  qed
qed

lemma heap_inv_min:
  assumes "heap_inv h" "i < length h"
  shows "h_priority (h ! 0) \<le> h_priority (h ! i)"
  using assms(2)
proof (induction i rule: less_induct)
  case (less i)
  show ?case
  proof (cases "i = 0")
    case True then show ?thesis by simp
  next
    case False
    let ?p = "(i - 1) div 2"
    have "?p < i" using False by simp
    moreover have "?p < length h" using less.prems False by simp
    ultimately have "h_priority (h ! 0) \<le> h_priority (h ! ?p)" using less.IH by blast
    moreover have "h_priority (h ! ?p) \<le> h_priority (h ! i)"
      using assms(1) False less.prems by (simp add: heap_inv_def)
    ultimately show ?thesis by simp
  qed
qed

lemma up_inv_swap:
  assumes "up_inv h k" "k < length h" "0 < k"
    and "\<not> h_priority (h ! ((k - 1) div 2)) \<le> h_priority (h ! k)"
  shows "up_inv (h[(k - 1) div 2 := h ! k, k := h ! ((k - 1) div 2)]) ((k - 1) div 2)"
proof -
  let ?p = "(k - 1) div 2"
  let ?h = "h[?p := h ! k, k := h ! ?p]"
  have pk: "?p < k" using assms(3) by simp
  have plen: "?p < length h" using pk assms(2) by simp
  have hp: "?h ! ?p = h ! k" using pk plen by simp
  have hk: "?h ! k = h ! ?p" using assms(2) by simp
  have hother: "\<And>j. j \<noteq> k \<Longrightarrow> j \<noteq> ?p \<Longrightarrow> ?h ! j = h ! j" by simp
  have lt: "h_priority (h ! k) < h_priority (h ! ?p)" using assms(4) by simp
  have A: "\<And>i. 0 < i \<Longrightarrow> i < length h \<Longrightarrow> i \<noteq> k \<Longrightarrow>
              h_priority (h ! ((i - 1) div 2)) \<le> h_priority (h ! i)"
    using assms(1) by (simp add: up_inv_def)
  have B: "\<And>i. 0 < i \<Longrightarrow> i < length h \<Longrightarrow> (i - 1) div 2 = k \<Longrightarrow>
              h_priority (h ! ?p) \<le> h_priority (h ! i)"
    using assms(1,3) by (simp add: up_inv_def)
  show ?thesis
    unfolding up_inv_def
  proof (intro conjI allI impI)
    fix i assume i: "0 < i \<and> i < length ?h \<and> i \<noteq> ?p"
    then have i0: "0 < i" and il: "i < length h" and ip: "i \<noteq> ?p" by simp_all
    let ?q = "(i - 1) div 2"
    have qi: "?q < i" using i0 by simp
    show "h_priority (?h ! ?q) \<le> h_priority (?h ! i)"
    proof (cases "i = k")
      case True
      then show ?thesis using hp hk lt by simp
    next
      case ik: False
      have hi: "?h ! i = h ! i" using hother[OF ik ip] .
      show ?thesis
      proof (cases "?q = k")
        case True
        then show ?thesis using hi hk B[OF i0 il True] by simp
      next
        case qk: False
        show ?thesis
        proof (cases "?q = ?p")
          case True
          have "h_priority (h ! ?p) \<le> h_priority (h ! i)" using A[OF i0 il ik] True by simp
          then show ?thesis using True hi hp lt by simp
        next
          case False
          then have "?h ! ?q = h ! ?q" using hother[OF qk False] by simp
          then show ?thesis using hi A[OF i0 il ik] by simp
        qed
      qed
    qed
  next
    fix i assume i: "0 < i \<and> i < length ?h \<and> (i - 1) div 2 = ?p \<and> 0 < ?p"
    then have i0: "0 < i" and il: "i < length h" and ipar: "(i - 1) div 2 = ?p" and p0: "0 < ?p"
      by simp_all
    let ?g = "(?p - 1) div 2"
    have gp: "?g < ?p" using p0 by simp
    have hg: "?h ! ?g = h ! ?g" using gp pk by simp
    have gle: "h_priority (h ! ?g) \<le> h_priority (h ! ?p)"
      using A[OF p0 plen] pk by simp
    have ine: "i \<noteq> ?p" using ipar i0 by (metis diff_Suc_less div_le_dividend le_less_trans less_irrefl One_nat_def)
    show "h_priority (?h ! ?g) \<le> h_priority (?h ! i)"
    proof (cases "i = k")
      case True
      then show ?thesis using hg hk gle by simp
    next
      case False
      have "h_priority (h ! ?p) \<le> h_priority (h ! i)" using A[OF i0 il False] ipar by simp
      then show ?thesis using hother[OF False ine] hg gle by simp
    qed
  qed
qed

lemma bubbleUp_heap_inv: "k < length h \<Longrightarrow> up_inv h k \<Longrightarrow> heap_inv (bubbleUp h k)"
proof (induction h k rule: bubbleUp.induct)
  case (1 heap index)
  let ?p = "(index - 1) div 2"
  consider (zero) "index = 0" | (stop) "0 < index" "h_priority (heap ! ?p) \<le> h_priority (heap ! index)"
    | (swap) "0 < index" "\<not> h_priority (heap ! ?p) \<le> h_priority (heap ! index)"
    by fastforce
  then show ?case
  proof cases
    case zero
    then have "bubbleUp heap index = heap" by (subst bubbleUp.simps) simp
    moreover have "heap_inv heap" using "1.prems"(2) zero by (auto simp: up_inv_def heap_inv_def)
    ultimately show ?thesis by simp
  next
    case stop
    then have "bubbleUp heap index = heap" by (subst bubbleUp.simps) (simp add: Let_def)
    moreover have "heap_inv heap"
      unfolding heap_inv_def
    proof (intro allI impI)
      fix i assume i: "0 < i \<and> i < length heap"
      show "h_priority (heap ! ((i - 1) div 2)) \<le> h_priority (heap ! i)"
      proof (cases "i = index")
        case True then show ?thesis using stop by simp
      next
        case False then show ?thesis using "1.prems"(2) i by (simp add: up_inv_def)
      qed
    qed
    ultimately show ?thesis by simp
  next
    case swap
    have p: "?p < length heap" using "1.prems"(1) swap(1) by simp
    have eq: "bubbleUp heap index = bubbleUp (heap[?p := heap ! index, index := heap ! ?p]) ?p"
      using swap by (subst bubbleUp.simps) (simp add: Let_def)
    have "up_inv (heap[?p := heap ! index, index := heap ! ?p]) ?p"
      using up_inv_swap[OF "1.prems"(2) "1.prems"(1) swap] .
    then have "heap_inv (bubbleUp (heap[?p := heap ! index, index := heap ! ?p]) ?p)"
      using "1.IH"[of ?p] swap p by simp
    then show ?thesis using eq by simp
  qed
qed


lemma parent_iff: "0 < (i::nat) \<Longrightarrow> ((i - 1) div 2 = k) = (i = 2 * k + 1 \<or> i = 2 * k + 2)"
  by arith

lemma smallest_of_stay:
  assumes "smallest_of h k = k" "0 < i" "i < length h" "(i - 1) div 2 = k"
  shows "h_priority (h ! k) \<le> h_priority (h ! i)"
proof -
  have "i = 2 * k + 1 \<or> i = 2 * k + 2" using parent_iff[OF assms(2)] assms(4) by simp
  then show ?thesis using assms(1,3)
    by (auto simp: smallest_of_def Let_def split: if_splits)
qed

lemma smallest_of_move:
  assumes "smallest_of h k = s" "s \<noteq> k"
  shows "k < s" "s < length h" "(s - 1) div 2 = k" "h_priority (h ! s) < h_priority (h ! k)"
    "\<And>i. 0 < i \<Longrightarrow> i < length h \<Longrightarrow> (i - 1) div 2 = k \<Longrightarrow> h_priority (h ! s) \<le> h_priority (h ! i)"
proof -
  show "k < s" "s < length h" using smallest_of_cases[of h k] assms by auto
  show "(s - 1) div 2 = k" using assms by (auto simp: smallest_of_def Let_def split: if_splits)
  show "h_priority (h ! s) < h_priority (h ! k)"
    using assms by (auto simp: smallest_of_def Let_def split: if_splits)
  fix i assume i: "0 < i" "i < length h" "(i - 1) div 2 = k"
  then have "i = 2 * k + 1 \<or> i = 2 * k + 2" using parent_iff[of i k] by simp
  then show "h_priority (h ! s) \<le> h_priority (h ! i)"
    using assms i(2) by (auto simp: smallest_of_def Let_def split: if_splits)
qed

lemma down_inv_swap:
  assumes "down_inv h k" "smallest_of h k = s" "s \<noteq> k"
  shows "down_inv (h[s := h ! k, k := h ! s]) s"
proof -
  let ?h = "h[s := h ! k, k := h ! s]"
  note m = smallest_of_move[OF assms(2,3)]
  have klen: "k < length h" using m(1,2) by simp
  have hs: "?h ! s = h ! k" using m(1,2) by simp
  have hk: "?h ! k = h ! s" using klen by simp
  have hother: "\<And>j. j \<noteq> k \<Longrightarrow> j \<noteq> s \<Longrightarrow> ?h ! j = h ! j" by simp
  have A: "\<And>i. 0 < i \<Longrightarrow> i < length h \<Longrightarrow> (i - 1) div 2 \<noteq> k \<Longrightarrow>
              h_priority (h ! ((i - 1) div 2)) \<le> h_priority (h ! i)"
    using assms(1) by (simp add: down_inv_def)
  have B: "\<And>i. 0 < i \<Longrightarrow> i < length h \<Longrightarrow> (i - 1) div 2 = k \<Longrightarrow> 0 < k \<Longrightarrow>
              h_priority (h ! ((k - 1) div 2)) \<le> h_priority (h ! i)"
    using assms(1) by (simp add: down_inv_def)
  show ?thesis
    unfolding down_inv_def
  proof (intro conjI allI impI)
    fix i assume i: "0 < i \<and> i < length ?h \<and> (i - 1) div 2 \<noteq> s"
    then have i0: "0 < i" and il: "i < length h" and ips: "(i - 1) div 2 \<noteq> s" by simp_all
    let ?q = "(i - 1) div 2"
    have qi: "?q < i" using i0 by simp
    show "h_priority (?h ! ?q) \<le> h_priority (?h ! i)"
    proof (cases "?q = k")
      case True
      have ik: "i \<noteq> k" using qi True by simp
      show ?thesis
      proof (cases "i = s")
        case True
        then show ?thesis using \<open>?q = k\<close> hs hk m(4) by simp
      next
        case False
        then show ?thesis using \<open>?q = k\<close> hk hother[OF ik False] m(5)[OF i0 il \<open>?q = k\<close>] by simp
      qed
    next
      case qk: False
      have hq: "?h ! ?q = h ! ?q" using hother[OF qk ips] .
      have ins: "i \<noteq> s" using qk m(3) by auto
      show ?thesis
      proof (cases "i = k")
        case True
        then have k0: "0 < k" using i0 by simp
        have "h_priority (h ! ((k - 1) div 2)) \<le> h_priority (h ! s)"
          using B[of s] m k0 by simp
        then show ?thesis using True hq hk by simp
      next
        case False
        then show ?thesis using hq hother[OF False ins] A[OF i0 il qk] by simp
      qed
    qed
  next
    fix i assume i: "0 < i \<and> i < length ?h \<and> (i - 1) div 2 = s \<and> 0 < s"
    then have i0: "0 < i" and il: "i < length h" and ipar: "(i - 1) div 2 = s" by simp_all
    have si: "s < i" using ipar i0 by auto
    have ik: "i \<noteq> k" and ins: "i \<noteq> s" using si m(1) by simp_all
    have "(i - 1) div 2 \<noteq> k" using ipar assms(3) by simp
    then have "h_priority (h ! s) \<le> h_priority (h ! i)" using A[OF i0 il] ipar by simp
    then show "h_priority (?h ! ((s - 1) div 2)) \<le> h_priority (?h ! i)"
      using m(3) hk hother[OF ik ins] by simp
  qed
qed

lemma bubbleDown_heap_inv: "down_inv h k \<Longrightarrow> heap_inv (bubbleDown h k)"
proof (induction h k rule: bubbleDown.induct)
  case (1 heap index)
  let ?s = "smallest_of heap index"
  show ?case
  proof (cases "?s = index")
    case True
    then have eq: "bubbleDown heap index = heap" by (subst bubbleDown.simps) (simp add: Let_def)
    have "heap_inv heap"
      unfolding heap_inv_def
    proof (intro allI impI)
      fix i assume i: "0 < i \<and> i < length heap"
      show "h_priority (heap ! ((i - 1) div 2)) \<le> h_priority (heap ! i)"
      proof (cases "(i - 1) div 2 = index")
        case par: True
        show ?thesis using smallest_of_stay[OF True _ _ par] i par by simp
      next
        case False
        then show ?thesis using "1.prems" i by (simp add: down_inv_def)
      qed
    qed
    then show ?thesis using eq by simp
  next
    case False
    have eq: "bubbleDown heap index
              = bubbleDown (heap[?s := heap ! index, index := heap ! ?s]) ?s"
      using False by (subst bubbleDown.simps) (simp add: Let_def)
    have "down_inv (heap[?s := heap ! index, index := heap ! ?s]) ?s"
      using down_inv_swap[OF "1.prems" refl False] .
    then show ?thesis using "1.IH"[OF refl False] eq by simp
  qed
qed

lemma push_heap_inv: "heap_inv h \<Longrightarrow> heap_inv (push h n p)"
proof -
  assume h: "heap_inv h"
  let ?e = "\<lparr> h_node = n, h_priority = p \<rparr>"
  have "up_inv (h @ [?e]) (length h)"
    unfolding up_inv_def
  proof (intro conjI allI impI)
    fix i assume "0 < i \<and> i < length (h @ [?e]) \<and> i \<noteq> length h"
    then have i: "0 < i" "i < length h" by simp_all
    then have "(i - 1) div 2 < length h" by simp
    then show "h_priority ((h @ [?e]) ! ((i - 1) div 2)) \<le> h_priority ((h @ [?e]) ! i)"
      using h i by (simp add: heap_inv_def nth_append)
  next
    fix i assume a: "0 < i \<and> i < length (h @ [?e]) \<and> (i - 1) div 2 = length h \<and> 0 < length h"
    then have "i \<le> length h" "(i - 1) div 2 = length h" "0 < i" by simp_all
    moreover have "(i - 1) div 2 \<le> i - 1" by simp
    ultimately have False by linarith
    then show "h_priority ((h @ [?e]) ! ((length h - 1) div 2)) \<le> h_priority ((h @ [?e]) ! i)" ..
  qed
  then show ?thesis unfolding push_def by (intro bubbleUp_heap_inv) simp_all
qed

lemma mset_push: "mset (push h n p) = add_mset \<lparr> h_node = n, h_priority = p \<rparr> (mset h)"
  unfolding push_def by (simp add: mset_bubbleUp)

lemma length_push [simp]: "length (push h n p) = Suc (length h)"
  by (simp add: push_def)

lemma pop_empty: "pop [] = (None, [])"
  by (simp add: pop_def)

lemma pop_nonempty:
  assumes "h \<noteq> []"
  obtains e h' where "pop h = (Some e, h')" "e = h ! 0" "mset h = add_mset e (mset h')"
    "length h' = length h - 1" "heap_inv h \<Longrightarrow> heap_inv h'"
proof (cases "length h = 1")
  case True
  then obtain a where h: "h = [a]" by (cases h) auto
  show ?thesis
    by (rule that[of a "[]"]) (simp_all add: h pop_def heap_inv_def)
next
  case False
  with assms have len: "2 \<le> length h" by (cases h) (auto simp: Suc_le_eq)
  let ?h1 = "(butlast h)[0 := last h]"
  have pop: "pop h = (Some (h ! 0), bubbleDown ?h1 0)"
    using assms False by (simp add: pop_def Let_def)
  obtain hs l where hl: "h = hs @ [l]" using assms by (cases h rule: rev_cases) auto
  have hs: "hs \<noteq> []" using hl False by (cases hs) auto
  then have hs0: "0 < length hs" by blast
  have h0: "h ! 0 = hs ! 0" using hl hs0 by (simp add: nth_append)
  have h1: "?h1 = hs[0 := l]" using hl by simp
  have "hs ! 0 \<in># mset hs" using hs0 by (metis nth_mem set_mset_mset)
  then have "add_mset (hs ! 0) (mset hs - {#hs ! 0#}) = mset hs" by simp
  then have ms: "mset h = add_mset (h ! 0) (mset ?h1)"
    unfolding h1 h0 using mset_update[OF hs0, of l] hl by simp
  have inv: "heap_inv (bubbleDown ?h1 0)" if hi: "heap_inv h"
  proof (rule bubbleDown_heap_inv)
    show "down_inv ?h1 0"
      unfolding down_inv_def
    proof (intro conjI allI impI)
      fix i assume a: "0 < i \<and> i < length ?h1 \<and> (i - 1) div 2 \<noteq> 0"
      then have i: "0 < i" "i < length h - 1" "(i - 1) div 2 \<noteq> 0" by simp_all
      have q: "(i - 1) div 2 < length h - 1" using i by simp
      have "h_priority (h ! ((i - 1) div 2)) \<le> h_priority (h ! i)"
        using hi i by (simp add: heap_inv_def)
      then show "h_priority (?h1 ! ((i - 1) div 2)) \<le> h_priority (?h1 ! i)"
        using i q by (simp add: nth_butlast)
    next
      fix i assume "0 < i \<and> i < length ?h1 \<and> (i - 1) div 2 = 0 \<and> (0::nat) < 0"
      then show "h_priority (?h1 ! ((0 - 1) div 2)) \<le> h_priority (?h1 ! i)" by simp
    qed
  qed
  show ?thesis
    by (rule that[of "h ! 0" "bubbleDown ?h1 0"]) (simp_all add: pop ms mset_bubbleDown inv)
qed

lemma run_heap_ops_inv: "heap_inv (run_heap_ops ops)"
proof -
  have "heap_inv h \<Longrightarrow> heap_inv (foldl apply_heap_op h ops)" for h
  proof (induction ops arbitrary: h)
    case Nil then show ?case by simp
  next
    case (Cons a ops)
    have "heap_inv (apply_heap_op h a)"
    proof (cases a)
      case (Push n p) then show ?thesis using Cons.prems by (simp add: push_heap_inv)
    next
      case Pop
      show ?thesis
      proof (cases "h = []")
        case True then show ?thesis using Pop by (simp add: pop_empty heap_inv_def)
      next
        case False
        then show ?thesis using Pop Cons.prems by (auto elim!: pop_nonempty[of h])
      qed
    qed
    then show ?case using Cons.IH by simp
  qed
  moreover have "heap_inv []" by (simp add: heap_inv_def)
  ultimately show ?thesis unfolding run_heap_ops_def by blast
qed

lemma heap_inv_pop_min:
  assumes "heap_inv h" "pop h = (Some e, h')" "x \<in> set h"
  shows "h_priority e \<le> h_priority x"
proof -
  have ne: "h \<noteq> []" using assms(3) by auto
  obtain i where i: "i < length h" "x = h ! i" using assms(3) by (metis in_set_conv_nth)
  from pop_nonempty[OF ne] assms(2) have "e = h ! 0" by (metis Pair_inject option.inject)
  then show ?thesis using heap_inv_min[OF assms(1) i(1)] i(2) by simp
qed

section \<open>Tracers\<close>

text \<open>
  A step is the object pushed onto \<open>steps\<close>; \<open>{...distances}\<close> and \<open>{...previous}\<close> copy the
  maps, which a value of function type does by itself. The \<open>message\<close> strings (and the
  formatted \<open>edges\<close> strings of the \<open>show-edges\<close> step) are display text and are not
  modelled. A field that a step object does not carry has the value \<open>None\<close>, \<open>[]\<close>, \<open>0\<close> or
  \<open>False\<close>.

  \<open>candidate du w dv\<close> is the pair of lines \<open>const alt = du + w; if (alt < dv)\<close>: the result is
  \<open>Some alt\<close> when the test succeeds.

  \<open>reconstruct\<close> is the loop \<open>while (curr !== null) { path.unshift(curr); curr = previous[curr] }\<close>.
  It need not terminate; \<open>None\<close> stands for a run that does not return. When \<open>previous[curr]\<close>
  is \<open>undefined\<close> the loop continues from \<open>undefined\<close> for ever (no node id is the string
  \<open>undefined\<close>), which is \<open>None\<close> as well.
\<close>

datatype step_type = Init | Extract | Update | NoUpdate | Complete
  | ShowEdges | IterationStart | IterationEnd | Skip | NegativeCycle

definition candidate :: "dist option \<Rightarrow> int \<Rightarrow> dist option \<Rightarrow> dist option" where
  "candidate du w dv = (let alt = js_plus du w in if js_less alt dv then alt else None)"

definition init_distances :: "node list \<Rightarrow> DistanceMap" where
  "init_distances nodes = foldl (\<lambda>m n. m(node_id n \<mapsto> Infinity)) Map.empty nodes"

definition init_previous :: "node list \<Rightarrow> PreviousMap" where
  "init_previous nodes = foldl (\<lambda>m n. m(node_id n \<mapsto> None)) Map.empty nodes"

partial_function (option) reconstruct ::
    "PreviousMap \<Rightarrow> NodeId option \<Rightarrow> NodeId list \<Rightarrow> NodeId list option" where
  "reconstruct previous cur acc =
     (case cur of
        None \<Rightarrow> Some acc
      | Some c \<Rightarrow> (case previous c of
                     None \<Rightarrow> None
                   | Some p \<Rightarrow> reconstruct previous p (c # acc)))"

declare reconstruct.simps [code]

definition pathEdges :: "NodeId list \<Rightarrow> string list" where
  "pathEdges p = map (\<lambda>i. edge_label (p ! i) (p ! (i + 1))) [0..<length p - 1]"

subsection \<open>The Dijkstra tracer\<close>

text \<open>
  \<open>dstep\<close> is a step of the Dijkstra tracer, \<open>dstate\<close> the variables of \<open>dijkstra\<close> that the loop
  changes. \<open>permanent\<close> is a JavaScript \<open>Set\<close>: a list in insertion order, to which a node is
  only added when it is absent. \<open>permanentArray\<close> and \<open>tentative\<close> hold \<open>{node, distance}\<close>
  objects, here pairs. The priorities in the heap are distances.
\<close>

record dstep =
  d_type :: step_type
  d_distances :: DistanceMap
  d_previous :: PreviousMap
  d_current :: "NodeId option"
  d_permanent :: "(NodeId \<times> dist option) list"
  d_tentative :: "(NodeId \<times> dist) list"
  d_neighbors :: "NodeId list"
  d_updated :: "NodeId option"
  d_activeEdges :: "string list"
  d_path :: "NodeId list"

record dstate =
  dj_distances :: DistanceMap
  dj_previous :: PreviousMap
  dj_permanent :: "NodeId list"
  dj_minHeap :: "dist MinHeap"
  dj_steps :: "dstep list"

text \<open>
  The body of the \<open>while\<close> loop in three parts: \<open>extractMin\<close> runs from
  \<open>permanent.add(current)\<close> to the push of the \<open>extract\<close> step (\<open>heap\<close> is the heap after the
  pop); \<open>relax\<close> is the body of \<open>neighbors.forEach\<close> for one neighbour, given the arrays
  \<open>permanentArray\<close> and \<open>tentativeArray\<close> computed at the extraction; \<open>relax_neighbors\<close> is
  the whole \<open>forEach\<close>. \<open>permanentArray_of\<close> is \<open>Array.from(permanent).map(...)\<close> and
  \<open>neighbors_of\<close> the array \<open>neighbors\<close>.
\<close>

definition permanentArray_of :: "dstate \<Rightarrow> (NodeId \<times> dist option) list" where
  "permanentArray_of s = map (\<lambda>nodeId. (nodeId, dj_distances s nodeId)) (dj_permanent s)"

definition neighbors_of :: "edge list \<Rightarrow> NodeId \<Rightarrow> (NodeId \<times> int) list" where
  "neighbors_of edges current =
     map (\<lambda>e. (e_to e, weight e)) (filter (\<lambda>e. e_from e = current) edges)"

definition extractMin :: "edge list \<Rightarrow> NodeId \<Rightarrow> dist MinHeap \<Rightarrow> dstate \<Rightarrow> dstate" where
  "extractMin edges current heap s =
     (let permanent = dj_permanent s @ [current];
          permanentArray = map (\<lambda>nodeId. (nodeId, dj_distances s nodeId)) permanent;
          tentativeArray = getAll heap;
          neighbors = neighbors_of edges current;
          exploringEdges =
            map (\<lambda>e. edge_label (e_from e) (e_to e))
              (filter (\<lambda>e. e_from e = current \<and> e_to e \<notin> set permanent) edges)
      in s\<lparr> dj_permanent := permanent, dj_minHeap := heap,
            dj_steps := dj_steps s @
              [\<lparr> d_type = Extract, d_distances = dj_distances s, d_previous = dj_previous s,
                 d_current = Some current, d_permanent = permanentArray,
                 d_tentative = tentativeArray, d_neighbors = map fst neighbors,
                 d_updated = None, d_activeEdges = exploringEdges, d_path = [] \<rparr>] \<rparr>)"

definition relax ::
    "NodeId \<Rightarrow> (NodeId \<times> dist option) list \<Rightarrow> (NodeId \<times> dist) list \<Rightarrow> dstate \<Rightarrow> NodeId \<times> int \<Rightarrow> dstate" where
  "relax current permanentArray tentativeArray s nb =
     (case nb of (to, w) \<Rightarrow>
        if to \<notin> set (dj_permanent s) then
          (case candidate (dj_distances s current) w (dj_distances s to) of
             Some alt \<Rightarrow>
               (let distances = (dj_distances s)(to \<mapsto> alt);
                    previous = (dj_previous s)(to \<mapsto> Some current);
                    heap = push (dj_minHeap s) to alt
                in s\<lparr> dj_distances := distances, dj_previous := previous, dj_minHeap := heap,
                      dj_steps := dj_steps s @
                        [\<lparr> d_type = Update, d_distances = distances, d_previous = previous,
                           d_current = Some current, d_permanent = permanentArray,
                           d_tentative = getAll heap, d_neighbors = [],
                           d_updated = Some to, d_activeEdges = [edge_label current to],
                           d_path = [] \<rparr>] \<rparr>)
           | None \<Rightarrow>
               s\<lparr> dj_steps := dj_steps s @
                     [\<lparr> d_type = NoUpdate, d_distances = dj_distances s,
                        d_previous = dj_previous s, d_current = Some current,
                        d_permanent = permanentArray, d_tentative = tentativeArray,
                        d_neighbors = [], d_updated = None,
                        d_activeEdges = [edge_label current to], d_path = [] \<rparr>] \<rparr>)
        else s)"

definition relax_neighbors :: "edge list \<Rightarrow> NodeId \<Rightarrow> dstate \<Rightarrow> dstate" where
  "relax_neighbors edges current s =
     foldl (relax current (permanentArray_of s) (getAll (dj_minHeap s))) s
       (neighbors_of edges current)"


lemma pop_Some:
  assumes "pop h = (Some e, h')"
  shows "h \<noteq> []" "set h = insert e (set h')" "length h' < length h" "mset h = add_mset e (mset h')"
    "heap_inv h \<Longrightarrow> heap_inv h'" "e = h ! 0"
proof -
  show ne: "h \<noteq> []" using assms by (auto simp: pop_empty)
  from pop_nonempty[OF ne] obtain e2 h2 where
    p: "pop h = (Some e2, h2)" "e2 = h ! 0" "mset h = add_mset e2 (mset h2)"
       "length h2 = length h - 1" "heap_inv h \<Longrightarrow> heap_inv h2"
    by metis
  then have eq: "e2 = e" "h2 = h'" using assms by simp_all
  show "mset h = add_mset e (mset h')" using p(3) eq by simp
  then show "set h = insert e (set h')" by (metis set_mset_add_mset_insert set_mset_mset)
  show "length h' < length h" using p(4) eq ne by (cases h) auto
  show "heap_inv h \<Longrightarrow> heap_inv h'" using p(5) eq by simp
  show "e = h ! 0" using p(2) eq by simp
qed

lemma pop_None: "pop h = (None, h') \<Longrightarrow> h = []"
  by (auto simp: pop_def Let_def split: if_splits)

lemma relax_permanent [simp]: "dj_permanent (relax c pa ta s nb) = dj_permanent s"
  by (auto simp: relax_def Let_def split: prod.splits option.splits)

lemma set_push: "set (push h n p) = insert \<lparr> h_node = n, h_priority = p \<rparr> (set h)"
  using mset_push[of h n p] by (metis set_mset_add_mset_insert set_mset_mset)

lemma relax_heap_nodes:
  "h_node ` set (dj_minHeap (relax c pa ta s nb)) \<subseteq> insert (fst nb) (h_node ` set (dj_minHeap s))"
  by (auto simp: relax_def Let_def set_push split: prod.splits option.splits)

lemma foldl_relax_permanent [simp]:
  "dj_permanent (foldl (relax c pa ta) s nbs) = dj_permanent s"
  by (induction nbs arbitrary: s) simp_all

lemma foldl_relax_heap_nodes:
  "h_node ` set (dj_minHeap (foldl (relax c pa ta) s nbs))
     \<subseteq> fst ` set nbs \<union> h_node ` set (dj_minHeap s)"
proof (induction nbs arbitrary: s)
  case Nil then show ?case by simp
next
  case (Cons nb nbs)
  show ?case using Cons.IH[of "relax c pa ta s nb"] relax_heap_nodes[of c pa ta s nb] by auto
qed

lemma extractMin_fields [simp]:
  "dj_permanent (extractMin es c h s) = dj_permanent s @ [c]"
  "dj_minHeap (extractMin es c h s) = h"
  "dj_distances (extractMin es c h s) = dj_distances s"
  "dj_previous (extractMin es c h s) = dj_previous s"
  by (simp_all add: extractMin_def Let_def)

lemma relax_neighbors_permanent [simp]:
  "dj_permanent (relax_neighbors es c s) = dj_permanent s"
  by (simp add: relax_neighbors_def)

lemma relax_neighbors_heap_nodes:
  "h_node ` set (dj_minHeap (relax_neighbors es c s)) \<subseteq> e_to ` set es \<union> h_node ` set (dj_minHeap s)"
proof -
  have "fst ` set (neighbors_of es c) \<subseteq> e_to ` set es" by (auto simp: neighbors_of_def)
  then show ?thesis unfolding relax_neighbors_def
    using foldl_relax_heap_nodes[of c "permanentArray_of s" "getAll (dj_minHeap s)" s "neighbors_of es c"]
    by blast
qed

text \<open>
  The loop \<open>while (!minHeap.isEmpty())\<close>. Each round pops one entry; a round that does not
  skip makes one more node permanent, and only nodes that are targets of edges or already
  in the heap are ever pushed. So the pair (number of \<open>pending\<close> nodes, size of the heap)
  decreases, and the loop is a total function. The branch \<open>(None, heap)\<close> is never taken:
  the heap is not empty there.
\<close>

definition pending :: "edge list \<Rightarrow> dstate \<Rightarrow> NodeId set" where
  "pending es s = (e_to ` set es \<union> h_node ` set (dj_minHeap s)) - set (dj_permanent s)"

function dijkstra_loop :: "edge list \<Rightarrow> NodeId \<Rightarrow> dstate \<Rightarrow> dstate" where
  "dijkstra_loop edges dest s =
     (if isEmpty (dj_minHeap s) then s
      else (case pop (dj_minHeap s) of
              (None, heap) \<Rightarrow> s
            | (Some e, heap) \<Rightarrow>
                (let current = h_node e in
                 if current \<in> set (dj_permanent s)
                 then dijkstra_loop edges dest (s\<lparr> dj_minHeap := heap \<rparr>)
                 else (let s1 = extractMin edges current heap s in
                       if current = dest then s1
                       else dijkstra_loop edges dest (relax_neighbors edges current s1)))))"
  by pat_completeness auto
termination
proof (relation "inv_image (less_than <*lex*> less_than)
          (\<lambda>(es, d, s). (card (pending es s), length (dj_minHeap s)))")
  show "wf (inv_image (less_than <*lex*> less_than)
          (\<lambda>(es, d, s). (card (pending es s), length (dj_minHeap s))))"
    by (intro wf_inv_image wf_lex_prod wf_less_than)
next
  fix edges :: "edge list" and dest :: NodeId and s :: dstate and x e heap current
  assume a: "\<not> isEmpty (dj_minHeap s)" "(x, heap) = pop (dj_minHeap s)" "x = Some e"
    "current = h_node e" "current \<in> set (dj_permanent s)"
  then have p: "pop (dj_minHeap s) = (Some e, heap)" by simp
  have fin: "finite (pending edges s)" by (simp add: pending_def)
  have "pending edges (s\<lparr> dj_minHeap := heap \<rparr>) \<subseteq> pending edges s"
    using pop_Some(2)[OF p] by (auto simp: pending_def)
  then have "card (pending edges (s\<lparr> dj_minHeap := heap \<rparr>)) \<le> card (pending edges s)"
    using fin by (simp add: card_mono)
  moreover have "length heap < length (dj_minHeap s)" using pop_Some(3)[OF p] .
  ultimately show "((edges, dest, s\<lparr> dj_minHeap := heap \<rparr>), edges, dest, s)
       \<in> inv_image (less_than <*lex*> less_than)
          (\<lambda>(es, d, s). (card (pending es s), length (dj_minHeap s)))"
    by auto
next
  fix edges :: "edge list" and dest :: NodeId and s :: dstate and x e heap current s1
  assume a: "\<not> isEmpty (dj_minHeap s)" "(x, heap) = pop (dj_minHeap s)" "x = Some e"
    "current = h_node e" "current \<notin> set (dj_permanent s)"
    "s1 = extractMin edges current heap s" "current \<noteq> dest"
  then have p: "pop (dj_minHeap s) = (Some e, heap)" by simp
  have fin: "finite (pending edges s)" by (simp add: pending_def)
  have cur: "current \<in> pending edges s"
    using pop_Some(2)[OF p] a(4,5) by (auto simp: pending_def)
  have "pending edges (relax_neighbors edges current s1) \<subseteq> pending edges s - {current}"
    using relax_neighbors_heap_nodes[of edges current s1] pop_Some(2)[OF p] a(6)
    by (auto simp: pending_def)
  then have "pending edges (relax_neighbors edges current s1) \<subset> pending edges s"
    using cur by blast
  then have "card (pending edges (relax_neighbors edges current s1)) < card (pending edges s)"
    using fin by (simp add: psubset_card_mono)
  then show "((edges, dest, relax_neighbors edges current s1), edges, dest, s)
       \<in> inv_image (less_than <*lex*> less_than)
          (\<lambda>(es, d, s). (card (pending es s), length (dj_minHeap s)))"
    by simp
qed

declare dijkstra_loop.simps [simp del]

definition dijkstra_init :: "node list \<Rightarrow> NodeId \<Rightarrow> dstate" where
  "dijkstra_init nodes source =
     (let distances = (init_distances nodes)(source \<mapsto> Fin 0);
          previous = init_previous nodes
      in \<lparr> dj_distances = distances, dj_previous = previous, dj_permanent = [],
           dj_minHeap = push [] source (Fin 0),
           dj_steps =
             [\<lparr> d_type = Init, d_distances = distances, d_previous = previous,
                d_current = None, d_permanent = [], d_tentative = [(source, Fin 0)],
                d_neighbors = [], d_updated = None, d_activeEdges = [], d_path = [] \<rparr>] \<rparr>)"

definition complete_step :: "dstate \<Rightarrow> NodeId \<Rightarrow> NodeId list \<Rightarrow> dstep" where
  "complete_step s dest p =
     \<lparr> d_type = Complete, d_distances = dj_distances s, d_previous = dj_previous s,
       d_current = None, d_permanent = permanentArray_of s, d_tentative = [],
       d_neighbors = [], d_updated = None, d_activeEdges = pathEdges p,
       d_path = (if dj_distances s dest \<noteq> Some Infinity then p else []) \<rparr>"

definition dijkstra :: "node list \<Rightarrow> edge list \<Rightarrow> NodeId \<Rightarrow> NodeId \<Rightarrow> dstep list option" where
  "dijkstra nodes edges source dest =
     (let s = dijkstra_loop edges dest (dijkstra_init nodes source)
      in case reconstruct (dj_previous s) (Some dest) [] of
           None \<Rightarrow> None
         | Some p \<Rightarrow> Some (dj_steps s @ [complete_step s dest p]))"

subsection \<open>The Bellman-Ford tracer\<close>

text \<open>
  \<open>relax_edge\<close> is the body of \<open>edges.forEach\<close> inside a pass, \<open>relax_pass\<close> one round of the
  \<open>for\<close> loop up to the \<open>iteration-end\<close> step, and \<open>bf_passes\<close> the \<open>for\<close> loop with its
  \<open>break\<close>; the loop test \<open>i < nodes.length - 1\<close> is on integers. \<open>negativeCycleEdge\<close> is the
  final scan: the last edge that can still be relaxed, if any. \<open>bf_step\<close> builds a step object
  of the given type from the current maps; \<open>bellmanFord_init\<close> is the state after the
  \<open>show-edges\<close> and \<open>init\<close> steps.
\<close>

record bstep =
  b_type :: step_type
  b_distances :: DistanceMap
  b_previous :: PreviousMap
  b_iteration :: nat
  b_edge :: "edge option"
  b_edgeNumber :: nat
  b_updated :: bool
  b_activeEdges :: "string list"
  b_path :: "NodeId list"

record bstate =
  bf_distances :: DistanceMap
  bf_previous :: PreviousMap
  bf_updated :: bool
  bf_steps :: "bstep list"

definition bf_step :: "step_type \<Rightarrow> bstate \<Rightarrow> nat \<Rightarrow> string list \<Rightarrow> bstep" where
  "bf_step t s iteration activeEdges =
     \<lparr> b_type = t, b_distances = bf_distances s, b_previous = bf_previous s,
       b_iteration = iteration, b_edge = None, b_edgeNumber = 0, b_updated = False,
       b_activeEdges = activeEdges, b_path = [] \<rparr>"

definition relax_edge :: "nat \<Rightarrow> bstate \<Rightarrow> edge \<times> nat \<Rightarrow> bstate" where
  "relax_edge i s ei =
     (case ei of (edge, edgeIndex) \<Rightarrow>
        (let activeEdge = [edge_label (e_from edge) (e_to edge)] in
         if bf_distances s (e_from edge) \<noteq> Some Infinity then
           (case candidate (bf_distances s (e_from edge)) (weight edge) (bf_distances s (e_to edge)) of
              Some alt \<Rightarrow>
                (let s1 = s\<lparr> bf_distances := (bf_distances s)(e_to edge \<mapsto> alt),
                              bf_previous := (bf_previous s)(e_to edge \<mapsto> Some (e_from edge)),
                              bf_updated := True \<rparr>
                 in s1\<lparr> bf_steps := bf_steps s @
                          [(bf_step Update s1 (i + 1) activeEdge)
                             \<lparr> b_edge := Some edge, b_edgeNumber := edgeIndex + 1 \<rparr>] \<rparr>)
            | None \<Rightarrow>
                s\<lparr> bf_steps := bf_steps s @
                      [(bf_step NoUpdate s (i + 1) activeEdge)
                         \<lparr> b_edge := Some edge, b_edgeNumber := edgeIndex + 1 \<rparr>] \<rparr>)
         else
           s\<lparr> bf_steps := bf_steps s @
                 [(bf_step Skip s (i + 1) activeEdge)
                    \<lparr> b_edge := Some edge, b_edgeNumber := edgeIndex + 1 \<rparr>] \<rparr>))"

definition relax_pass :: "edge list \<Rightarrow> nat \<Rightarrow> bstate \<Rightarrow> bstate" where
  "relax_pass edges i s =
     (let s1 = s\<lparr> bf_updated := False,
                  bf_steps := bf_steps s @ [bf_step IterationStart s (i + 1) []] \<rparr>;
          s2 = foldl (relax_edge i) s1 (zip edges [0..<length edges])
      in s2\<lparr> bf_steps := bf_steps s2 @
               [(bf_step IterationEnd s2 (i + 1) [])\<lparr> b_updated := bf_updated s2 \<rparr>] \<rparr>)"

function bf_passes :: "edge list \<Rightarrow> nat \<Rightarrow> nat \<Rightarrow> bstate \<Rightarrow> bstate" where
  "bf_passes edges n i s =
     (if int i < int n - 1 then
        (let s1 = relax_pass edges i s in
         if \<not> bf_updated s1 then s1 else bf_passes edges n (i + 1) s1)
      else s)"
  by pat_completeness auto
termination
  by (relation "measure (\<lambda>(edges, n, i, s). n - i)") auto

declare bf_passes.simps [simp del]

definition negativeCycleEdge :: "DistanceMap \<Rightarrow> edge list \<Rightarrow> edge option" where
  "negativeCycleEdge distances edges =
     foldl (\<lambda>found edge.
              if distances (e_from edge) \<noteq> Some Infinity \<and>
                 candidate (distances (e_from edge)) (weight edge) (distances (e_to edge)) \<noteq> None
              then Some edge else found)
       None edges"

definition bellmanFord_init :: "node list \<Rightarrow> NodeId \<Rightarrow> bstate" where
  "bellmanFord_init nodes source =
     (let s0 = \<lparr> bf_distances = (init_distances nodes)(source \<mapsto> Fin 0),
                  bf_previous = init_previous nodes, bf_updated = False, bf_steps = [] \<rparr>
      in s0\<lparr> bf_steps := [bf_step ShowEdges s0 0 [], bf_step Init s0 0 []] \<rparr>)"

definition bf_complete_step :: "bstate \<Rightarrow> NodeId \<Rightarrow> NodeId list \<Rightarrow> bstep" where
  "bf_complete_step s dest p =
     (bf_step Complete s 0 (pathEdges p))
       \<lparr> b_path := (if bf_distances s dest \<noteq> Some Infinity then p else []) \<rparr>"

definition bellmanFord :: "node list \<Rightarrow> edge list \<Rightarrow> NodeId \<Rightarrow> NodeId \<Rightarrow> bstep list option" where
  "bellmanFord nodes edges source dest =
     (let s = bf_passes edges (length nodes) 0 (bellmanFord_init nodes source)
      in case negativeCycleEdge (bf_distances s) edges of
           Some nce \<Rightarrow>
             Some (bf_steps s @
               [bf_step NegativeCycle s 0 [edge_label (e_from nce) (e_to nce)]])
         | None \<Rightarrow>
             (case reconstruct (bf_previous s) (Some dest) [] of
                None \<Rightarrow> None
              | Some p \<Rightarrow> Some (bf_steps s @ [bf_complete_step s dest p])))"

section \<open>Running a tracer\<close>



section \<open>Example graphs\<close>

definition mk_node :: "NodeId \<Rightarrow> node" where
  "mk_node a = \<lparr> node_id = a, pos_x = 0, pos_y = 0 \<rparr>"

definition mk_edge :: "NodeId \<Rightarrow> NodeId \<Rightarrow> int \<Rightarrow> edge" where
  "mk_edge a b w = \<lparr> e_from = a, e_to = b, weight = w \<rparr>"

definition example1_nodes :: "node list" where
  "example1_nodes = [mk_node ''A'', mk_node ''B'', mk_node ''C'']"

definition example1_edges :: "edge list" where
  "example1_edges = [mk_edge ''A'' ''B'' 4, mk_edge ''A'' ''C'' 1, mk_edge ''C'' ''B'' 1]"

definition example3_nodes :: "node list" where
  "example3_nodes = [mk_node ''A'', mk_node ''B'']"

definition example3_edges :: "edge list" where
  "example3_edges = [mk_edge ''A'' ''B'' 1, mk_edge ''B'' ''A'' (- 3)]"

section \<open>The priority queue returns a minimum\<close>

text \<open>
  C6. For every sequence of pushes (and pops), \<open>pop\<close> on the resulting queue returns the
  null sentinel and leaves the queue empty when the queue is empty; otherwise it removes
  exactly one entry, and that entry's priority is at most the priority of every entry
  that was in the queue.
\<close>

theorem popMin_returns_minimum:
  "(run_heap_ops ops = [] \<longrightarrow> pop (run_heap_ops ops) = (None, [])) \<and>
   (run_heap_ops ops \<noteq> [] \<longrightarrow>
      (\<exists>e. fst (pop (run_heap_ops ops)) = Some e \<and>
           mset (run_heap_ops ops) = add_mset e (mset (snd (pop (run_heap_ops ops)))) \<and>
           (\<forall>x \<in> set (run_heap_ops ops). h_priority e \<le> h_priority x)))"
proof (cases "run_heap_ops ops = []")
  case True
  then show ?thesis by (simp add: pop_empty)
next
  case False
  from pop_nonempty[OF False] obtain e h2 where
    e: "pop (run_heap_ops ops) = (Some e, h2)" "mset (run_heap_ops ops) = add_mset e (mset h2)"
    by metis
  show ?thesis
    using False e heap_inv_pop_min[OF run_heap_ops_inv e(1)] by auto
qed

definition example_heap :: "int MinHeap" where
  "example_heap = run_heap_ops [Push ''a'' (3::int), Push ''b'' 1, Push ''c'' 2, Pop, Push ''d'' 0]"

theorem popMin_returns_minimum_witness:
  "(run_heap_ops [] :: int MinHeap) = [] \<and> pop (run_heap_ops [] :: int MinHeap) = (None, []) \<and>
   run_heap_ops [Push ''a'' (3::int), Push ''b'' 1, Push ''c'' 2, Pop, Push ''d'' 0] \<noteq> [] \<and>
   fst (pop example_heap) \<noteq> None \<and>
   h_priority (the (fst (pop example_heap))) \<le> h_priority (example_heap ! 1) \<and>
   h_priority (the (fst (pop example_heap))) \<le> h_priority (example_heap ! 2)"
proof -
  have e: "(run_heap_ops [] :: int MinHeap) = []" by (simp add: run_heap_ops_def)
  have ne: "run_heap_ops [Push ''a'' (3::int), Push ''b'' 1, Push ''c'' 2, Pop, Push ''d'' 0] \<noteq> []"
    by code_simp
  have len: "length example_heap = 3" by code_simp
  then have mem: "example_heap ! 1 \<in> set example_heap" "example_heap ! 2 \<in> set example_heap"
    by simp_all
  show ?thesis
    using e ne mem popMin_returns_minimum[of "[] :: int heap_op list"]
      popMin_returns_minimum[of "[Push ''a'' (3::int), Push ''b'' 1, Push ''c'' 2, Pop, Push ''d'' 0]"]
    unfolding example_heap_def[symmetric] by auto
qed

section \<open>Edge authoring\<close>

lemma handleWeightSubmit_NaN:
  "handleWeightSubmit None st = (None, closeWeightModal (st\<lparr> ui_direction := Uni \<rparr>))"
  by (simp add: handleWeightSubmit_def)

lemma handleWeightSubmit_negative_Dijkstra:
  "ui_algorithm st = Dijkstra \<Longrightarrow> v < 0 \<Longrightarrow>
   handleWeightSubmit (Some v) st =
     (Some ''Dijkstra's algorithm must have positive weight edges only.'', st)"
  by (simp add: handleWeightSubmit_def)

lemma handleWeightSubmit_accept:
  assumes "v \<noteq> 0" "ui_algorithm st = Dijkstra \<longrightarrow> 0 \<le> v" "ui_pendingEdge st = Some (f, t)"
  shows "fst (handleWeightSubmit (Some v) st) = None"
    and "ui_edges (snd (handleWeightSubmit (Some v) st)) =
           ui_edges st @
             (if ui_direction st = Uni then [\<lparr> e_from = f, e_to = t, weight = v \<rparr>]
              else [\<lparr> e_from = f, e_to = t, weight = v \<rparr>, \<lparr> e_from = t, e_to = f, weight = v \<rparr>])"
  using assms by (auto simp: handleWeightSubmit_def closeWeightModal_def Let_def)

definition pending_state :: ui_state where
  "pending_state =
     initial_state\<lparr> ui_nodes := [\<lparr> node_id = ''N0'', pos_x = 100, pos_y = 100 \<rparr>,
                                 \<lparr> node_id = ''N1'', pos_x = 200, pos_y = 100 \<rparr>],
                    ui_algorithm := BellmanFord, ui_mode := Connect,
                    ui_connectingFrom := Some ''N0'',
                    ui_pendingEdge := Some (''N0'', ''N1''), ui_showWeightModal := True \<rparr>"

text \<open>
  C8. With Bellman-Ford selected and the edge N0 \<rightarrow> N1 pending, submitting the weight 0
  shows no toast, closes the dialogue and leaves the edge list empty: the edge of weight 0
  is not inserted.
\<close>

theorem handleWeightSubmit_drops_zero:
  "handleWeightSubmit (Some 0) pending_state =
     (None, closeWeightModal pending_state) \<and>
   ui_edges (snd (handleWeightSubmit (Some 0) pending_state)) = []"
  by (simp add: handleWeightSubmit_def pending_state_def initial_state_def closeWeightModal_def)

section \<open>Node ids\<close>

lemma sqrt_less_25: "(sqrt x < 25) = (x < 625)"
proof -
  have "sqrt 625 = 25" using real_sqrt_abs[of 25] by simp
  then show ?thesis using real_sqrt_less_iff[of x 625] by simp
qed

text \<open>
  Four clicks: on empty canvas at (100, 100) and at (200, 100) in mode add, on the first
  node in mode delete, and on empty canvas at (300, 100) in mode add again.
\<close>

definition duplicate_id_run :: ui_state where
  "duplicate_id_run =
     handleCanvasMouseDown 300 100 (setMode Add
       (handleCanvasMouseDown 100 100 (setMode Delete
         (handleCanvasMouseDown 200 100
           (handleCanvasMouseDown 100 100 initial_state)))))"

text \<open>
  C9. After adding two nodes and deleting the first, the next added node gets the id
  \<open>N1\<close>, which the remaining node already has: the graph then holds two nodes with the
  same id.
\<close>

theorem addNode_duplicate_id:
  "map node_id (ui_nodes duplicate_id_run) = [''N1'', ''N1'']"
  by (simp add: duplicate_id_run_def handleCanvasMouseDown_def clickedNode_def
      initial_state_def setMode_def sqrt_less_25 digit_char_def)

section \<open>The Dijkstra tracer: the permanent set\<close>

lemma dijkstra_loop_rule:
  assumes inv: "I s"
    and skip: "\<And>s e h. I s \<Longrightarrow> pop (dj_minHeap s) = (Some e, h) \<Longrightarrow>
                 h_node e \<in> set (dj_permanent s) \<Longrightarrow> I (s\<lparr> dj_minHeap := h \<rparr>)"
    and ext: "\<And>s e h. I s \<Longrightarrow> pop (dj_minHeap s) = (Some e, h) \<Longrightarrow>
                 h_node e \<notin> set (dj_permanent s) \<Longrightarrow> I' (h_node e) (extractMin es (h_node e) h s)"
    and rel: "\<And>s c. I' c s \<Longrightarrow> c \<noteq> dest \<Longrightarrow> I (relax_neighbors es c s)"
    and fin1: "\<And>s. I s \<Longrightarrow> dj_minHeap s = [] \<Longrightarrow> Q s"
    and fin2: "\<And>s. I' dest s \<Longrightarrow> Q s"
  shows "Q (dijkstra_loop es dest s)"
proof -
  have "es' = es \<Longrightarrow> dest' = dest \<Longrightarrow> I s \<Longrightarrow> Q (dijkstra_loop es' dest' s)" for es' dest'
  proof (induction es' dest' s rule: dijkstra_loop.induct)
    case (1 edges d s)
    have es: "edges = es" and d: "d = dest" and inv: "I s" using "1.prems" by blast+
    show ?case
    proof (cases "dj_minHeap s = []")
      case True
      then have "dijkstra_loop edges d s = s"
        by (subst dijkstra_loop.simps) (simp add: isEmpty_def)
      then show ?thesis using fin1[OF inv True] by simp
    next
      case False
      then obtain e h where p: "pop (dj_minHeap s) = (Some e, h)"
        using pop_nonempty[OF False] by metis
      have ne: "\<not> isEmpty (dj_minHeap s)" using False by (simp add: isEmpty_def)
      show ?thesis
      proof (cases "h_node e \<in> set (dj_permanent s)")
        case True
        have eq: "dijkstra_loop edges d s = dijkstra_loop edges d (s\<lparr> dj_minHeap := h \<rparr>)"
          using ne p True by (subst dijkstra_loop.simps) (simp add: Let_def)
        have "I (s\<lparr> dj_minHeap := h \<rparr>)" using skip[OF inv p True] .
        then have "Q (dijkstra_loop edges d (s\<lparr> dj_minHeap := h \<rparr>))"
          using "1.IH"(1)[OF ne p[symmetric] refl refl True es d] by blast
        then show ?thesis unfolding eq .
      next
        case notperm: False
        have I': "I' (h_node e) (extractMin es (h_node e) h s)"
          using ext[OF inv p notperm] .
        show ?thesis
        proof (cases "h_node e = dest")
          case True
          have eq: "dijkstra_loop edges d s = extractMin es dest h s"
            using ne p notperm True es d by (subst dijkstra_loop.simps) (simp add: Let_def)
          show ?thesis unfolding eq using I' True fin2 by simp
        next
          case False
          have eq: "dijkstra_loop edges d s
                    = dijkstra_loop edges d
                        (relax_neighbors edges (h_node e) (extractMin edges (h_node e) h s))"
            using ne p notperm False d by (subst dijkstra_loop.simps) (simp add: Let_def)
          have "I (relax_neighbors edges (h_node e) (extractMin edges (h_node e) h s))"
            using rel[OF I' False] es by simp
          then have "Q (dijkstra_loop edges d
                        (relax_neighbors edges (h_node e) (extractMin edges (h_node e) h s)))"
            using "1.IH"(2)[OF ne p[symmetric] refl refl notperm refl _ es d] False d by blast
          then show ?thesis unfolding eq .
        qed
      qed
    qed
  qed
  then show ?thesis using inv by blast
qed


lemma foldl_rule:
  assumes "R s" "\<And>s x. R s \<Longrightarrow> x \<in> set xs \<Longrightarrow> R (f s x)"
  shows "R (foldl f s xs)"
  using assms by (induction xs arbitrary: s) simp_all

definition perm_nodes :: "dstep \<Rightarrow> NodeId list" where
  "perm_nodes st = map fst (d_permanent st)"

definition trace_inv :: "dstate \<Rightarrow> bool" where
  "trace_inv s =
     (distinct (dj_permanent s) \<and>
      sorted_wrt (\<lambda>a b. set (perm_nodes a) \<subseteq> set (perm_nodes b)) (dj_steps s) \<and>
      (\<forall>st \<in> set (dj_steps s). set (perm_nodes st) \<subseteq> set (dj_permanent s) \<and>
          distinct (perm_nodes st) \<and> d_type st \<noteq> Complete))"

lemma trace_inv_push:
  assumes "trace_inv s" "perm_nodes st = dj_permanent s" "d_type st \<noteq> Complete"
    "dj_permanent s' = dj_permanent s" "dj_steps s' = dj_steps s @ [st]"
  shows "trace_inv s'"
  using assms unfolding trace_inv_def by (auto simp: sorted_wrt_append)

lemma trace_inv_heap: "trace_inv (s\<lparr> dj_minHeap := h \<rparr>) = trace_inv s"
  by (simp add: trace_inv_def)

lemma trace_inv_relax:
  assumes "trace_inv s" "map fst pa = dj_permanent s"
  shows "trace_inv (relax c pa ta s nb)"
proof -
  obtain t w where nb: "nb = (t, w)" by (cases nb)
  show ?thesis
  proof (cases "t \<in> set (dj_permanent s)")
    case True then show ?thesis using assms nb by (simp add: relax_def)
  next
    case False
    show ?thesis
    proof (cases "candidate (dj_distances s c) w (dj_distances s t)")
      case None
      show ?thesis
        by (rule trace_inv_push[OF assms(1), where st = "last (dj_steps (relax c pa ta s nb))"])
          (simp_all add: relax_def nb False None perm_nodes_def assms(2))
    next
      case (Some alt)
      show ?thesis
        by (rule trace_inv_push[OF assms(1), where st = "last (dj_steps (relax c pa ta s nb))"])
          (simp_all add: relax_def nb False Some perm_nodes_def assms(2) Let_def)
    qed
  qed
qed

lemma trace_inv_relax_neighbors:
  assumes "trace_inv s"
  shows "trace_inv (relax_neighbors es c s)"
proof -
  have pa: "map fst (permanentArray_of s) = dj_permanent s"
    by (simp add: permanentArray_of_def comp_def)
  have "trace_inv (foldl (relax c (permanentArray_of s) (getAll (dj_minHeap s))) s' xs) \<and>
        dj_permanent (foldl (relax c (permanentArray_of s) (getAll (dj_minHeap s))) s' xs) = dj_permanent s"
    if "trace_inv s'" "dj_permanent s' = dj_permanent s" for s' xs
    using that
  proof (induction xs arbitrary: s')
    case Nil then show ?case by simp
  next
    case (Cons x xs)
    have "trace_inv (relax c (permanentArray_of s) (getAll (dj_minHeap s)) s' x)"
      using trace_inv_relax[OF Cons.prems(1)] pa Cons.prems(2) by simp
    then show ?case using Cons.IH Cons.prems(2) by simp
  qed
  then show ?thesis using assms unfolding relax_neighbors_def by blast
qed

lemma trace_inv_extractMin:
  assumes "trace_inv s" "c \<notin> set (dj_permanent s)"
  shows "trace_inv (extractMin es c h s)"
proof -
  let ?st = "last (dj_steps (extractMin es c h s))"
  have st: "dj_steps (extractMin es c h s) = dj_steps s @ [?st]"
    by (simp add: extractMin_def Let_def)
  have pn: "perm_nodes ?st = dj_permanent s @ [c]" and ty: "d_type ?st \<noteq> Complete"
    by (simp_all add: extractMin_def Let_def perm_nodes_def comp_def)
  have old: "\<forall>x \<in> set (dj_steps s). set (perm_nodes x) \<subseteq> set (dj_permanent s) \<and>
          distinct (perm_nodes x) \<and> d_type x \<noteq> Complete"
    using assms(1) by (simp add: trace_inv_def)
  have "sorted_wrt (\<lambda>a b. set (perm_nodes a) \<subseteq> set (perm_nodes b)) (dj_steps s @ [?st])"
    using assms(1) old pn unfolding trace_inv_def by (auto simp: sorted_wrt_append)
  moreover have "distinct (dj_permanent s @ [c])" using assms by (simp add: trace_inv_def)
  moreover have "\<forall>x \<in> set (dj_steps s @ [?st]). set (perm_nodes x) \<subseteq> set (dj_permanent s @ [c]) \<and>
          distinct (perm_nodes x) \<and> d_type x \<noteq> Complete"
    using old pn ty calculation(2) by auto
  ultimately show ?thesis
    unfolding trace_inv_def using st by simp
qed

lemma trace_inv_loop:
  assumes "trace_inv s"
  shows "trace_inv (dijkstra_loop es dest s)"
  by (rule dijkstra_loop_rule[where I = trace_inv and I' = "\<lambda>c. trace_inv", OF assms])
    (simp_all add: trace_inv_heap trace_inv_extractMin trace_inv_relax_neighbors)

lemma dijkstra_SomeE:
  assumes "dijkstra ns es src dest = Some steps"
  obtains p where
    "reconstruct (dj_previous (dijkstra_loop es dest (dijkstra_init ns src))) (Some dest) [] = Some p"
    "steps = dj_steps (dijkstra_loop es dest (dijkstra_init ns src)) @
               [complete_step (dijkstra_loop es dest (dijkstra_init ns src)) dest p]"
  using assms unfolding dijkstra_def by (auto simp: Let_def split: option.splits)

lemma trace_inv_init: "trace_inv (dijkstra_init ns src)"
  by (simp add: trace_inv_def dijkstra_init_def perm_nodes_def Let_def)

text \<open>
  C5. In a step sequence returned by the Dijkstra tracer the permanent sets only grow:
  for any two steps, the earlier one's permanent set is contained in the later one's (in
  particular for two consecutive \<open>extract\<close> steps), and no step's permanent list names a
  node twice.
\<close>

theorem permanent_set_monotone:
  assumes "dijkstra ns es src dest = Some steps"
  shows "(\<forall>i j. i < j \<and> j < length steps \<longrightarrow>
            set (map fst (d_permanent (steps ! i))) \<subseteq> set (map fst (d_permanent (steps ! j)))) \<and>
         (\<forall>st \<in> set steps. distinct (map fst (d_permanent st)))"
proof -
  let ?s = "dijkstra_loop es dest (dijkstra_init ns src)"
  from dijkstra_SomeE[OF assms] obtain p where
    steps: "steps = dj_steps ?s @ [complete_step ?s dest p]" by blast
  have ti: "trace_inv ?s" using trace_inv_loop[OF trace_inv_init] .
  have pn: "perm_nodes (complete_step ?s dest p) = dj_permanent ?s"
    by (simp add: perm_nodes_def complete_step_def permanentArray_of_def comp_def)
  have "sorted_wrt (\<lambda>a b. set (perm_nodes a) \<subseteq> set (perm_nodes b)) steps"
    using ti pn unfolding steps trace_inv_def by (auto simp: sorted_wrt_append)
  then have mono: "\<forall>i j. i < j \<and> j < length steps \<longrightarrow>
            set (perm_nodes (steps ! i)) \<subseteq> set (perm_nodes (steps ! j))"
    by (simp add: sorted_wrt_iff_nth_less)
  have "\<forall>st \<in> set steps. distinct (perm_nodes st)"
    using ti pn unfolding steps trace_inv_def by auto
  then show ?thesis using mono unfolding perm_nodes_def by blast
qed



theorem permanent_set_monotone_witness:
  "map_option (map d_type) (dijkstra example1_nodes example1_edges ''A'' ''B'')
     = Some [Init, Extract, Update, Update, Extract, Update, Extract, Complete] \<and>
   set (map fst (d_permanent (the (dijkstra example1_nodes example1_edges ''A'' ''B'') ! 1)))
     \<subseteq> set (map fst (d_permanent (the (dijkstra example1_nodes example1_edges ''A'' ''B'') ! 4))) \<and>
   distinct (map fst (d_permanent (last (the (dijkstra example1_nodes example1_edges ''A'' ''B'')))))"
proof -
  have ty: "map_option (map d_type) (dijkstra example1_nodes example1_edges ''A'' ''B'')
     = Some [Init, Extract, Update, Update, Extract, Update, Extract, Complete]"
    by code_simp
  then obtain steps where steps: "dijkstra example1_nodes example1_edges ''A'' ''B'' = Some steps"
    by auto
  have len: "length steps = 8" using ty steps by (auto dest: arg_cong[where f = length])
  then have "last steps \<in> set steps" by (cases steps) auto
  then show ?thesis
    using permanent_set_monotone[OF steps] ty len unfolding steps by simp
qed

section \<open>The path and the highlighted edges of a complete step\<close>

definition path_pairs :: "NodeId list \<Rightarrow> (NodeId \<times> NodeId) list" where
  "path_pairs p = zip p (tl p)"

lemma pathEdges_pairs: "pathEdges p = map (\<lambda>(a, b). edge_label a b) (path_pairs p)"
proof (rule nth_equalityI)
  show "length (pathEdges p) = length (map (\<lambda>(a, b). edge_label a b) (path_pairs p))"
    by (simp add: pathEdges_def path_pairs_def)
next
  fix i assume "i < length (pathEdges p)"
  then have i: "i < length p - 1" by (simp add: pathEdges_def)
  then have "zip p (tl p) ! i = (p ! i, p ! (i + 1))" by (simp add: nth_tl)
  then show "pathEdges p ! i = map (\<lambda>(a, b). edge_label a b) (path_pairs p) ! i"
    using i by (simp add: pathEdges_def path_pairs_def)
qed

text \<open>
  \<open>chain previous v p\<close>: following \<open>previous\<close> from \<open>v\<close> reaches a node whose predecessor is
  \<open>null\<close>, and \<open>p\<close> lists the nodes met, root first. Such a chain is what \<open>reconstruct\<close>
  returns, it is unique, and it visits no node twice.
\<close>

inductive chain :: "PreviousMap \<Rightarrow> NodeId \<Rightarrow> NodeId list \<Rightarrow> bool" where
  root: "prev v = Some None \<Longrightarrow> chain prev v [v]"
| link: "prev v = Some (Some u) \<Longrightarrow> chain prev u p \<Longrightarrow> chain prev v (p @ [v])"

lemma chain_reconstruct: "chain prev v p \<Longrightarrow> reconstruct prev (Some v) acc = Some (p @ acc)"
proof (induction arbitrary: acc rule: chain.induct)
  case (root prev v)
  then show ?case by (simp add: reconstruct.simps)
next
  case (link prev v u p)
  have "reconstruct prev (Some v) acc = reconstruct prev (Some u) (v # acc)"
    using link.hyps(1) by (subst reconstruct.simps) simp
  then show ?case using link.IH[of "v # acc"] by simp
qed

lemma chain_unique: "chain prev v p \<Longrightarrow> chain prev v q \<Longrightarrow> p = q"
proof (induction arbitrary: q rule: chain.induct)
  case (root prev v)
  from root.prems root.hyps show ?case by (cases rule: chain.cases) auto
next
  case (link prev v u p)
  from link.prems link.hyps(1) obtain p' where "q = p' @ [v]" "chain prev u p'"
    by (cases rule: chain.cases) auto
  then show ?case using link.IH by simp
qed

lemma chain_member: "chain prev v p \<Longrightarrow> x \<in> set p \<Longrightarrow> \<exists>q. chain prev x q \<and> length q \<le> length p"
proof (induction rule: chain.induct)
  case (root prev v)
  then show ?case using chain.root[of prev v] by auto
next
  case (link prev v u p)
  show ?case
  proof (cases "x = v")
    case True
    then show ?thesis using chain.link[of prev v u p] link.hyps by auto
  next
    case False
    then have "x \<in> set p" using link.prems by simp
    then obtain q where "chain prev x q" "length q \<le> length p" using link.IH by blast
    then show ?thesis by auto
  qed
qed

lemma chain_distinct: "chain prev v p \<Longrightarrow> distinct p"
proof (induction rule: chain.induct)
  case (root prev v) then show ?case by simp
next
  case (link prev v u p)
  have "v \<notin> set p"
  proof
    assume "v \<in> set p"
    then obtain q where q: "chain prev v q" "length q \<le> length p"
      using chain_member[OF link.hyps(2)] by blast
    have "chain prev v (p @ [v])" using chain.link[of prev v u p] link.hyps by simp
    then have "q = p @ [v]" using chain_unique q(1) by blast
    then show False using q(2) by simp
  qed
  then show ?case using link.IH by simp
qed

lemma chain_last: "chain prev v p \<Longrightarrow> p \<noteq> [] \<and> last p = v"
  by (induction rule: chain.induct) simp_all

lemma chain_cong: "chain prev v p \<Longrightarrow> (\<And>x. x \<in> set p \<Longrightarrow> prev' x = prev x) \<Longrightarrow> chain prev' v p"
proof (induction rule: chain.induct)
  case (root prev v)
  then show ?case by (simp add: chain.root)
next
  case (link prev v u p)
  have "prev' v = Some (Some u)" using link.prems[of v] link.hyps(1) by simp
  moreover have "chain prev' u p" using link.IH link.prems by simp
  ultimately show ?case by (rule chain.link)
qed



lemma foldl_upd_const:
  "foldl (\<lambda>m n. m(node_id n \<mapsto> v)) m0 ns x = (if x \<in> node_id ` set ns then Some v else m0 x)"
  by (induction ns arbitrary: m0) auto

lemma init_distances_apply:
  "init_distances ns x = (if x \<in> node_id ` set ns then Some Infinity else None)"
  by (simp add: init_distances_def foldl_upd_const)

lemma init_previous_apply:
  "init_previous ns x = (if x \<in> node_id ` set ns then Some None else None)"
  by (simp add: init_previous_def foldl_upd_const)

lemma js_less_Fin:
  "js_less (Some (Fin a)) dv = (dv = Some Infinity \<or> (\<exists>b. dv = Some (Fin b) \<and> a < b))"
proof (cases dv)
  case None then show ?thesis by simp
next
  case (Some x) then show ?thesis by (cases x) (auto simp: less_dist_def)
qed

lemma js_less_Infinity [simp]: "js_less (Some Infinity) dv = False"
proof (cases dv)
  case None then show ?thesis by simp
next
  case (Some x) then show ?thesis by (cases x) (auto simp: less_dist_def)
qed

lemma js_less_dom: "js_less x dv \<Longrightarrow> dv \<noteq> None \<and> dv \<noteq> Some NegInfinity"
proof (cases x)
  case None then show "js_less x dv \<Longrightarrow> dv \<noteq> None \<and> dv \<noteq> Some NegInfinity" by simp
next
  case (Some a)
  assume "js_less x dv"
  then show ?thesis using Some
    by (cases dv; cases a) (auto simp: less_dist_def elim: less_eq_dist.elims)
qed

lemma round_double_exact: "\<bar>x\<bar> \<le> 2 ^ 53 \<Longrightarrow> round_double x = Fin x"
  by (simp add: round_double_def)

text \<open>What a successful test \<open>alt < dv\<close> says, whatever the rounding.\<close>

lemma candidate_SomeD:
  assumes "candidate du w dv = Some alt"
  shows "alt \<noteq> Infinity" "dv \<noteq> None" "dv \<noteq> Some NegInfinity" "js_plus du w = Some alt"
    "js_less (Some alt) dv" "du \<noteq> None" "du \<noteq> Some Infinity"
proof -
  from assms have a: "js_plus du w = Some alt" "js_less (Some alt) dv"
    by (auto simp: candidate_def Let_def split: if_splits)
  show "js_plus du w = Some alt" "js_less (Some alt) dv" using a by simp_all
  show "alt \<noteq> Infinity" using a(2) by auto
  show "dv \<noteq> None" "dv \<noteq> Some NegInfinity" using js_less_dom[OF a(2)] by simp_all
  show "du \<noteq> None" using a(1) by (cases du) auto
  show "du \<noteq> Some Infinity" using a by auto
qed

lemma candidate_FinD:
  "candidate du w dv = Some (Fin k) \<Longrightarrow> dv = Some Infinity \<or> (\<exists>b. dv = Some (Fin b) \<and> k < b)"
  using candidate_SomeD(5)[of du w dv "Fin k"] by (simp add: js_less_Fin)

lemma candidate_not_Fin [simp]: "candidate None w dv = None" "candidate (Some Infinity) w dv = None"
  by (simp_all add: candidate_def)

text \<open>
  The sum \<open>a + w\<close> is exact when its magnitude is at most \<open>2^53\<close>; the relaxation test then
  is the test on integers.
\<close>

definition exact_sum :: "int \<Rightarrow> int \<Rightarrow> bool" where
  "exact_sum a w = (\<bar>a + w\<bar> \<le> 2 ^ 53)"

lemma candidate_Fin:
  "exact_sum a w \<Longrightarrow> candidate (Some (Fin a)) w dv =
     (if dv = Some Infinity \<or> (\<exists>b. dv = Some (Fin b) \<and> a + w < b) then Some (Fin (a + w)) else None)"
  by (simp add: candidate_def exact_sum_def round_double_exact js_less_Fin)

lemma candidate_None:
  "exact_sum a w \<Longrightarrow> dv \<noteq> Some NegInfinity \<Longrightarrow> candidate (Some (Fin a)) w dv = None \<Longrightarrow>
     dv = None \<or> (\<exists>b. dv = Some (Fin b) \<and> b \<le> a + w)"
proof (cases dv)
  case None then show ?thesis by simp
next
  case (Some x)
  assume "exact_sum a w" "dv \<noteq> Some NegInfinity" "candidate (Some (Fin a)) w dv = None"
  then show ?thesis using Some by (cases x) (auto simp: candidate_Fin split: if_splits)
qed

definition inf_null :: "DistanceMap \<Rightarrow> PreviousMap \<Rightarrow> bool" where
  "inf_null d prev = (\<forall>x. d x = Some Infinity \<longrightarrow> prev x = Some None)"

lemma inf_null_init: "inf_null ((init_distances ns)(src \<mapsto> Fin 0)) (init_previous ns)"
  by (auto simp: inf_null_def init_distances_apply init_previous_apply)

lemma inf_null_upd: "alt \<noteq> Infinity \<Longrightarrow> inf_null d prev \<Longrightarrow> inf_null (d(t \<mapsto> alt)) (prev(t \<mapsto> u))"
  by (auto simp: inf_null_def)

lemma inf_null_relax:
  "inf_null (dj_distances s) (dj_previous s) \<Longrightarrow>
   inf_null (dj_distances (relax c pa ta s nb)) (dj_previous (relax c pa ta s nb))"
  by (auto simp: relax_def Let_def inf_null_upd candidate_SomeD(1) split: prod.splits option.splits)

lemma inf_null_loop:
  assumes "inf_null (dj_distances s) (dj_previous s)"
  shows "inf_null (dj_distances (dijkstra_loop es dest s)) (dj_previous (dijkstra_loop es dest s))"
proof (rule dijkstra_loop_rule[where I = "\<lambda>s. inf_null (dj_distances s) (dj_previous s)"
        and I' = "\<lambda>c s. inf_null (dj_distances s) (dj_previous s)", OF assms])
  fix s :: dstate and c assume "inf_null (dj_distances s) (dj_previous s)"
  then show "inf_null (dj_distances (relax_neighbors es c s)) (dj_previous (relax_neighbors es c s))"
    unfolding relax_neighbors_def
    by (rule foldl_rule[where R = "\<lambda>s. inf_null (dj_distances s) (dj_previous s)"])
      (rule inf_null_relax)
qed simp_all

lemma reconstruct_root: "prev v = Some None \<Longrightarrow> reconstruct prev (Some v) [] = Some [v]"
  using chain_reconstruct[OF chain.root, of prev v "[]"] by simp

lemma dijkstra_complete_path_edges:
  assumes "dijkstra ns es src dest = Some steps" "st \<in> set steps" "d_type st = Complete"
  shows "d_activeEdges st = map (\<lambda>(a, b). edge_label a b) (path_pairs (d_path st)) \<and>
         (d_distances st dest = Some Infinity \<longrightarrow> d_path st = [] \<and> d_activeEdges st = [])"
proof -
  let ?s = "dijkstra_loop es dest (dijkstra_init ns src)"
  from dijkstra_SomeE[OF assms(1)] obtain p where
    rec: "reconstruct (dj_previous ?s) (Some dest) [] = Some p"
    and steps: "steps = dj_steps ?s @ [complete_step ?s dest p]" by blast
  have "\<forall>x \<in> set (dj_steps ?s). d_type x \<noteq> Complete"
    using trace_inv_loop[OF trace_inv_init, of es dest ns src] by (simp add: trace_inv_def)
  then have st: "st = complete_step ?s dest p" using assms(2,3) steps by auto
  have inf: "inf_null (dj_distances ?s) (dj_previous ?s)"
    by (rule inf_null_loop) (simp add: dijkstra_init_def Let_def inf_null_init)
  show ?thesis
  proof (cases "dj_distances ?s dest = Some Infinity")
    case True
    then have "dj_previous ?s dest = Some None" using inf by (simp add: inf_null_def)
    then have "p = [dest]" using rec reconstruct_root by simp
    then show ?thesis using True by (simp add: st complete_step_def pathEdges_def path_pairs_def)
  next
    case False
    then show ?thesis by (simp add: st complete_step_def pathEdges_pairs)
  qed
qed


lemma bf_passes_rule:
  assumes inv: "I i s"
    and cont: "\<And>i s. I i s \<Longrightarrow> int i < int n - 1 \<Longrightarrow> bf_updated (relax_pass es i s) \<Longrightarrow>
                 I (i + 1) (relax_pass es i s)"
    and brk: "\<And>i s. I i s \<Longrightarrow> int i < int n - 1 \<Longrightarrow> \<not> bf_updated (relax_pass es i s) \<Longrightarrow>
                 Q (relax_pass es i s)"
    and fin: "\<And>i s. I i s \<Longrightarrow> \<not> int i < int n - 1 \<Longrightarrow> Q s"
  shows "Q (bf_passes es n i s)"
proof -
  have "es' = es \<Longrightarrow> n' = n \<Longrightarrow> I i s \<Longrightarrow> Q (bf_passes es' n' i s)" for es' n'
  proof (induction es' n' i s rule: bf_passes.induct)
    case (1 edges m i s)
    have es: "edges = es" and m: "m = n" and inv: "I i s" using "1.prems" by blast+
    show ?case
    proof (cases "int i < int n - 1")
      case False
      then have "bf_passes edges m i s = s" using m by (subst bf_passes.simps) simp
      then show ?thesis using fin[OF inv False] by simp
    next
      case True
      show ?thesis
      proof (cases "bf_updated (relax_pass es i s)")
        case False
        then have "bf_passes edges m i s = relax_pass es i s"
          using True m es by (subst bf_passes.simps) (simp add: Let_def)
        then show ?thesis using brk[OF inv True False] by simp
      next
        case upd: True
        have eq: "bf_passes edges m i s = bf_passes edges m (i + 1) (relax_pass edges i s)"
          using True m es upd by (subst bf_passes.simps) (simp add: Let_def)
        have "I (i + 1) (relax_pass edges i s)" using cont[OF inv True upd] es by simp
        moreover have "int i < int m - 1" using True m by simp
        moreover have "\<not> \<not> bf_updated (relax_pass edges i s)" using upd es by simp
        ultimately have "Q (bf_passes edges m (i + 1) (relax_pass edges i s))"
          using "1.IH"[OF _ refl _ es m] by blast
        then show ?thesis unfolding eq .
      qed
    qed
  qed
  then show ?thesis using inv by blast
qed

lemma relax_pass_rule:
  assumes "R s"
    and "\<And>s. R s \<Longrightarrow> R (s\<lparr> bf_updated := False,
                  bf_steps := bf_steps s @ [bf_step IterationStart s (i + 1) []] \<rparr>)"
    and "\<And>s e k. R s \<Longrightarrow> e \<in> set es \<Longrightarrow> R (relax_edge i s (e, k))"
    and "\<And>s. R s \<Longrightarrow> R (s\<lparr> bf_steps := bf_steps s @
               [(bf_step IterationEnd s (i + 1) [])\<lparr> b_updated := bf_updated s \<rparr>] \<rparr>)"
  shows "R (relax_pass es i s)"
proof -
  let ?s1 = "s\<lparr> bf_updated := False,
                  bf_steps := bf_steps s @ [bf_step IterationStart s (i + 1) []] \<rparr>"
  have "R (foldl (relax_edge i) ?s1 (zip es [0..<length es]))"
  proof (rule foldl_rule[where R = R])
    show "R ?s1" using assms(1,2) by blast
  next
    fix s x assume "R s" "x \<in> set (zip es [0..<length es])"
    then show "R (relax_edge i s x)" using assms(3)[of s "fst x" "snd x"]
      by (cases x) (auto dest: set_zip_leftD)
  qed
  then show ?thesis unfolding relax_pass_def Let_def using assms(4) by blast
qed

lemma relax_edge_cases:
  obtains (upd) alt where
      "candidate (bf_distances s (e_from e)) (weight e) (bf_distances s (e_to e)) = Some alt"
      "bf_distances s (e_from e) \<noteq> Some Infinity"
      "bf_distances (relax_edge i s (e, k)) = (bf_distances s)(e_to e \<mapsto> alt)"
      "bf_previous (relax_edge i s (e, k)) = (bf_previous s)(e_to e \<mapsto> Some (e_from e))"
      "bf_updated (relax_edge i s (e, k))"
      "\<exists>st. bf_steps (relax_edge i s (e, k)) = bf_steps s @ [st] \<and> b_type st = Update"
  | (same) "bf_distances s (e_from e) = Some Infinity \<or>
            candidate (bf_distances s (e_from e)) (weight e) (bf_distances s (e_to e)) = None"
      "bf_distances (relax_edge i s (e, k)) = bf_distances s"
      "bf_previous (relax_edge i s (e, k)) = bf_previous s"
      "bf_updated (relax_edge i s (e, k)) = bf_updated s"
      "\<exists>st. bf_steps (relax_edge i s (e, k)) = bf_steps s @ [st] \<and> b_type st \<in> {NoUpdate, Skip}"
proof (cases "bf_distances s (e_from e) \<noteq> Some Infinity \<and>
     candidate (bf_distances s (e_from e)) (weight e) (bf_distances s (e_to e)) \<noteq> None")
  case True
  then obtain alt where c: "candidate (bf_distances s (e_from e)) (weight e) (bf_distances s (e_to e)) = Some alt"
    by auto
  show ?thesis
    by (rule upd[of alt]) (use c True in \<open>simp_all add: relax_edge_def Let_def bf_step_def\<close>)
next
  case False
  show ?thesis
    by (rule same) (use False in \<open>auto simp: relax_edge_def Let_def bf_step_def\<close>)
qed

lemma inf_null_relax_edge:
  "inf_null (bf_distances s) (bf_previous s) \<Longrightarrow>
   inf_null (bf_distances (relax_edge i s (e, k))) (bf_previous (relax_edge i s (e, k)))"
  by (cases rule: relax_edge_cases[of s e i k]) (simp_all add: inf_null_upd candidate_SomeD(1))

lemma inf_null_bf_passes:
  assumes "inf_null (bf_distances s) (bf_previous s)"
  shows "inf_null (bf_distances (bf_passes es n i s)) (bf_previous (bf_passes es n i s))"
proof -
  have pass: "inf_null (bf_distances (relax_pass es i s)) (bf_previous (relax_pass es i s))"
    if "inf_null (bf_distances s) (bf_previous s)" for i s
    by (rule relax_pass_rule[where R = "\<lambda>s. inf_null (bf_distances s) (bf_previous s)", OF that])
      (simp_all add: inf_null_relax_edge)
  show ?thesis
    by (rule bf_passes_rule[where I = "\<lambda>i s. inf_null (bf_distances s) (bf_previous s)", OF assms])
      (simp_all add: pass)
qed

definition no_complete :: "bstate \<Rightarrow> bool" where
  "no_complete s = (\<forall>st \<in> set (bf_steps s). b_type st \<notin> {Complete, NegativeCycle})"

lemma no_complete_relax_edge: "no_complete s \<Longrightarrow> no_complete (relax_edge i s (e, k))"
  by (cases rule: relax_edge_cases[of s e i k]) (auto simp: no_complete_def)

lemma no_complete_bf_passes:
  assumes "no_complete s"
  shows "no_complete (bf_passes es n i s)"
proof -
  have pass: "no_complete (relax_pass es i s)" if "no_complete s" for i s
  proof (rule relax_pass_rule[where R = no_complete, OF that])
    fix s e k assume "no_complete s"
    then show "no_complete (relax_edge i s (e, k))" by (rule no_complete_relax_edge)
  qed (auto simp: no_complete_def bf_step_def)
  show ?thesis
    by (rule bf_passes_rule[where I = "\<lambda>i. no_complete", OF assms]) (simp_all add: pass)
qed

lemma bellmanFord_init_fields [simp]:
  "bf_distances (bellmanFord_init ns src) = (init_distances ns)(src \<mapsto> Fin 0)"
  "bf_previous (bellmanFord_init ns src) = init_previous ns"
  by (simp_all add: bellmanFord_init_def Let_def)

lemma no_complete_init: "no_complete (bellmanFord_init ns src)"
  by (simp add: no_complete_def bellmanFord_init_def Let_def bf_step_def)

lemma bellmanFord_cases:
  assumes "bellmanFord ns es src dest = Some steps"
  obtains (neg) nce where
      "negativeCycleEdge (bf_distances (bf_passes es (length ns) 0 (bellmanFord_init ns src))) es = Some nce"
      "steps = bf_steps (bf_passes es (length ns) 0 (bellmanFord_init ns src)) @
         [bf_step NegativeCycle (bf_passes es (length ns) 0 (bellmanFord_init ns src)) 0
            [edge_label (e_from nce) (e_to nce)]]"
  | (complete) p where
      "negativeCycleEdge (bf_distances (bf_passes es (length ns) 0 (bellmanFord_init ns src))) es = None"
      "reconstruct (bf_previous (bf_passes es (length ns) 0 (bellmanFord_init ns src))) (Some dest) [] = Some p"
      "steps = bf_steps (bf_passes es (length ns) 0 (bellmanFord_init ns src)) @
         [bf_complete_step (bf_passes es (length ns) 0 (bellmanFord_init ns src)) dest p]"
  using assms unfolding bellmanFord_def by (auto simp: Let_def split: option.splits)

lemma bellmanFord_complete_path_edges:
  assumes "bellmanFord ns es src dest = Some steps" "st \<in> set steps" "b_type st = Complete"
  shows "b_activeEdges st = map (\<lambda>(a, b). edge_label a b) (path_pairs (b_path st)) \<and>
         (b_distances st dest = Some Infinity \<longrightarrow> b_path st = [] \<and> b_activeEdges st = [])"
proof -
  let ?s = "bf_passes es (length ns) 0 (bellmanFord_init ns src)"
  have nc: "\<forall>x \<in> set (bf_steps ?s). b_type x \<noteq> Complete"
    using no_complete_bf_passes[OF no_complete_init, of es "length ns" 0 ns src]
    by (simp add: no_complete_def)
  have inf: "inf_null (bf_distances ?s) (bf_previous ?s)"
    by (rule inf_null_bf_passes) (simp add: inf_null_init)
  from assms(1) show ?thesis
  proof (cases rule: bellmanFord_cases)
    case (neg nce)
    then show ?thesis using nc assms(2,3) by (auto simp: bf_step_def)
  next
    case (complete p)
    then have st: "st = bf_complete_step ?s dest p" using nc assms(2,3) by auto
    show ?thesis
    proof (cases "bf_distances ?s dest = Some Infinity")
      case True
      then have "bf_previous ?s dest = Some None" using inf by (simp add: inf_null_def)
      then have "p = [dest]" using complete(2) reconstruct_root by simp
      then show ?thesis using True
        by (simp add: st bf_complete_step_def bf_step_def pathEdges_def path_pairs_def)
    next
      case False
      then show ?thesis by (simp add: st bf_complete_step_def bf_step_def pathEdges_pairs)
    qed
  qed
qed


text \<open>
  C7. In every \<open>complete\<close> step of either tracer, the \<open>activeEdges\<close> field is the list of
  labels of the consecutive pairs of the \<open>path\<close> field; when the destination's distance is
  \<open>Infinity\<close>, both are empty.
\<close>

theorem complete_step_path_edges:
  "(dijkstra ns es src dest = Some dsteps \<longrightarrow>
      (\<forall>st \<in> set dsteps. d_type st = Complete \<longrightarrow>
         d_activeEdges st = map (\<lambda>(a, b). edge_label a b) (path_pairs (d_path st)) \<and>
         (d_distances st dest = Some Infinity \<longrightarrow> d_path st = [] \<and> d_activeEdges st = []))) \<and>
   (bellmanFord ns es src dest = Some bsteps \<longrightarrow>
      (\<forall>st \<in> set bsteps. b_type st = Complete \<longrightarrow>
         b_activeEdges st = map (\<lambda>(a, b). edge_label a b) (path_pairs (b_path st)) \<and>
         (b_distances st dest = Some Infinity \<longrightarrow> b_path st = [] \<and> b_activeEdges st = [])))"
  using dijkstra_complete_path_edges[of ns es src dest dsteps]
    bellmanFord_complete_path_edges[of ns es src dest bsteps]
  by blast

theorem complete_step_path_edges_witness:
  "map_option (\<lambda>steps. (d_type (last steps), d_path (last steps), d_activeEdges (last steps)))
     (dijkstra example1_nodes example1_edges ''A'' ''B'')
     = Some (Complete, [''A'', ''C'', ''B''], [''A-C'', ''C-B'']) \<and>
   map_option (\<lambda>steps. (b_type (last steps), b_path (last steps), b_activeEdges (last steps)))
     (bellmanFord example1_nodes example1_edges ''A'' ''B'')
     = Some (Complete, [''A'', ''C'', ''B''], [''A-C'', ''C-B'']) \<and>
   map_option (\<lambda>steps. (d_type (last steps), d_distances (last steps) ''B''))
     (dijkstra example3_nodes [] ''A'' ''B'') = Some (Complete, Some Infinity) \<and>
   d_activeEdges (last (the (dijkstra example1_nodes example1_edges ''A'' ''B'')))
     = map (\<lambda>(a, b). edge_label a b)
         (path_pairs (d_path (last (the (dijkstra example1_nodes example1_edges ''A'' ''B''))))) \<and>
   b_activeEdges (last (the (bellmanFord example1_nodes example1_edges ''A'' ''B'')))
     = map (\<lambda>(a, b). edge_label a b)
         (path_pairs (b_path (last (the (bellmanFord example1_nodes example1_edges ''A'' ''B''))))) \<and>
   d_path (last (the (dijkstra example3_nodes [] ''A'' ''B''))) = [] \<and>
   d_activeEdges (last (the (dijkstra example3_nodes [] ''A'' ''B''))) = []"
proof -
  have d1: "map_option (\<lambda>steps. (d_type (last steps), d_path (last steps), d_activeEdges (last steps)))
     (dijkstra example1_nodes example1_edges ''A'' ''B'')
     = Some (Complete, [''A'', ''C'', ''B''], [''A-C'', ''C-B''])"
    by code_simp
  have b1: "map_option (\<lambda>steps. (b_type (last steps), b_path (last steps), b_activeEdges (last steps)))
     (bellmanFord example1_nodes example1_edges ''A'' ''B'')
     = Some (Complete, [''A'', ''C'', ''B''], [''A-C'', ''C-B''])"
    by code_simp
  have d3: "map_option (\<lambda>steps. (d_type (last steps), d_distances (last steps) ''B''))
     (dijkstra example3_nodes [] ''A'' ''B'') = Some (Complete, Some Infinity)"
    by code_simp
  have n1: "map_option length (dijkstra example1_nodes example1_edges ''A'' ''B'') \<noteq> Some 0"
    and n2: "map_option length (bellmanFord example1_nodes example1_edges ''A'' ''B'') \<noteq> Some 0"
    and n3: "map_option length (dijkstra example3_nodes [] ''A'' ''B'') \<noteq> Some 0"
    by code_simp+
  from d1 obtain s1 where s1: "dijkstra example1_nodes example1_edges ''A'' ''B'' = Some s1" by auto
  from b1 obtain s2 where s2: "bellmanFord example1_nodes example1_edges ''A'' ''B'' = Some s2" by auto
  from d3 obtain s3 where s3: "dijkstra example3_nodes [] ''A'' ''B'' = Some s3" by auto
  have l1: "last s1 \<in> set s1" and l2: "last s2 \<in> set s2" and l3: "last s3 \<in> set s3"
    using n1 n2 n3 s1 s2 s3 by simp_all
  show ?thesis
    using complete_step_path_edges[of example1_nodes example1_edges "''A''" "''B''" s1 s2]
      complete_step_path_edges[of example3_nodes "[]" "''A''" "''B''" s3 s2]
      d1 b1 d3 l1 l2 l3 s1 s2 s3
    by auto
qed


section \<open>Refusing to run\<close>




















section \<open>The Dijkstra tracer terminates\<close>

definition dj_prev_inv :: "NodeId set \<Rightarrow> dstate \<Rightarrow> bool" where
  "dj_prev_inv D s =
     (D \<subseteq> dom (dj_previous s) \<and>
      dom (dj_distances s) \<subseteq> dom (dj_previous s) \<and>
      (\<forall>x \<in> set (dj_permanent s). \<exists>p. chain (dj_previous s) x p \<and> set p \<subseteq> set (dj_permanent s)) \<and>
      (\<forall>x y. x \<notin> set (dj_permanent s) \<longrightarrow> dj_previous s x = Some (Some y) \<longrightarrow>
          y \<in> set (dj_permanent s)) \<and>
      (\<forall>e \<in> set (dj_minHeap s). h_node e \<in> dom (dj_distances s)))"

lemma dj_prev_inv_chain:
  assumes "dj_prev_inv D s" "x \<in> dom (dj_previous s)"
  shows "\<exists>p. chain (dj_previous s) x p"
proof (cases "x \<in> set (dj_permanent s)")
  case True
  then show ?thesis using assms(1) unfolding dj_prev_inv_def by blast
next
  case False
  from assms(2) obtain z where z: "dj_previous s x = Some z" by auto
  show ?thesis
  proof (cases z)
    case None
    then show ?thesis using chain.root[of "dj_previous s" x] z by auto
  next
    case (Some y)
    then have "y \<in> set (dj_permanent s)" using assms(1) False z unfolding dj_prev_inv_def by blast
    then obtain p where "chain (dj_previous s) y p" using assms(1) unfolding dj_prev_inv_def by blast
    then show ?thesis using chain.link[of "dj_previous s" x y p] z Some by auto
  qed
qed

lemma dj_prev_inv_skip:
  assumes "dj_prev_inv D s" "pop (dj_minHeap s) = (Some e, h)"
  shows "dj_prev_inv D (s\<lparr> dj_minHeap := h \<rparr>)"
  using assms(1) pop_Some(2)[OF assms(2)] unfolding dj_prev_inv_def by auto

lemma dj_prev_inv_extract:
  assumes inv: "dj_prev_inv D s" and p: "pop (dj_minHeap s) = (Some e, h)"
    and np: "h_node e \<notin> set (dj_permanent s)"
  shows "dj_prev_inv D (extractMin es (h_node e) h s)"
proof -
  let ?c = "h_node e"
  have eh: "e \<in> set (dj_minHeap s)" "set h \<subseteq> set (dj_minHeap s)"
    using pop_Some(2)[OF p] by auto
  then have "?c \<in> dom (dj_previous s)" using inv unfolding dj_prev_inv_def by blast
  then obtain z where z: "dj_previous s ?c = Some z" by auto
  have cc: "\<exists>q. chain (dj_previous s) ?c q \<and> set q \<subseteq> set (dj_permanent s @ [?c])"
  proof (cases z)
    case None
    then show ?thesis using chain.root[of "dj_previous s" ?c] z by auto
  next
    case (Some y)
    then have "y \<in> set (dj_permanent s)" using inv np z unfolding dj_prev_inv_def by blast
    then obtain q where q: "chain (dj_previous s) y q" "set q \<subseteq> set (dj_permanent s)"
      using inv unfolding dj_prev_inv_def by blast
    have "chain (dj_previous s) ?c (q @ [?c])"
      using chain.link[of "dj_previous s" ?c y q] z Some q(1) by simp
    moreover have "set (q @ [?c]) \<subseteq> set (dj_permanent s @ [?c])" using q(2) by auto
    ultimately show ?thesis by blast
  qed
  have a: "\<forall>x \<in> set (dj_permanent s @ [?c]).
            \<exists>q. chain (dj_previous s) x q \<and> set q \<subseteq> set (dj_permanent s @ [?c])"
  proof
    fix x assume "x \<in> set (dj_permanent s @ [?c])"
    then consider "x = ?c" | "x \<in> set (dj_permanent s)" by auto
    then show "\<exists>q. chain (dj_previous s) x q \<and> set q \<subseteq> set (dj_permanent s @ [?c])"
    proof cases
      case 1 then show ?thesis using cc by simp
    next
      case 2
      then obtain q where "chain (dj_previous s) x q" "set q \<subseteq> set (dj_permanent s)"
        using inv unfolding dj_prev_inv_def by blast
      then show ?thesis by auto
    qed
  qed
  show ?thesis
    unfolding dj_prev_inv_def extractMin_fields
    using inv a eh(2) unfolding dj_prev_inv_def by auto
qed

lemma dj_prev_inv_relax:
  assumes inv: "dj_prev_inv D s" and c: "c \<in> set (dj_permanent s)"
  shows "dj_prev_inv D (relax c pa ta s nb)"
proof -
  obtain t w where nb: "nb = (t, w)" by (cases nb)
  show ?thesis
  proof (cases "t \<in> set (dj_permanent s)")
    case True then show ?thesis using inv nb by (simp add: relax_def)
  next
    case False
    show ?thesis
    proof (cases "candidate (dj_distances s c) w (dj_distances s t)")
      case None
      then show ?thesis using inv nb False by (simp add: relax_def dj_prev_inv_def)
    next
      case (Some alt)
      let ?s' = "relax c pa ta s nb"
      have f: "dj_distances ?s' = (dj_distances s)(t \<mapsto> alt)"
        "dj_previous ?s' = (dj_previous s)(t \<mapsto> Some c)"
        "dj_minHeap ?s' = push (dj_minHeap s) t alt"
        "dj_permanent ?s' = dj_permanent s"
        by (simp_all add: relax_def nb False Some Let_def)
      have a: "\<forall>x \<in> set (dj_permanent s).
                \<exists>p. chain ((dj_previous s)(t \<mapsto> Some c)) x p \<and> set p \<subseteq> set (dj_permanent s)"
      proof
        fix x assume "x \<in> set (dj_permanent s)"
        then obtain p where p: "chain (dj_previous s) x p" "set p \<subseteq> set (dj_permanent s)"
          using inv unfolding dj_prev_inv_def by blast
        then have "t \<notin> set p" using False by auto
        then have "\<And>y. y \<in> set p \<Longrightarrow> ((dj_previous s)(t \<mapsto> Some c)) y = dj_previous s y"
          by auto
        then have "chain ((dj_previous s)(t \<mapsto> Some c)) x p"
          by (rule chain_cong[OF p(1)])
        then show "\<exists>p. chain ((dj_previous s)(t \<mapsto> Some c)) x p \<and> set p \<subseteq> set (dj_permanent s)"
          using p(2) by blast
      qed
      show ?thesis
        unfolding dj_prev_inv_def f
        using inv a c unfolding dj_prev_inv_def by (auto simp: set_push)
    qed
  qed
qed

lemma dj_prev_inv_relax_neighbors:
  assumes "dj_prev_inv D s" "c \<in> set (dj_permanent s)"
  shows "dj_prev_inv D (relax_neighbors es c s)"
proof -
  have "dj_prev_inv D (relax_neighbors es c s) \<and> c \<in> set (dj_permanent (relax_neighbors es c s))"
    unfolding relax_neighbors_def
    by (rule foldl_rule[where R = "\<lambda>s. dj_prev_inv D s \<and> c \<in> set (dj_permanent s)"])
      (use assms in \<open>simp_all add: dj_prev_inv_relax\<close>)
  then show ?thesis by blast
qed

lemma dj_prev_inv_loop:
  assumes "dj_prev_inv D s"
  shows "dj_prev_inv D (dijkstra_loop es dest s)"
proof (rule dijkstra_loop_rule[where I = "dj_prev_inv D"
        and I' = "\<lambda>c s. dj_prev_inv D s \<and> c \<in> set (dj_permanent s)", OF assms])
  fix s e h
  assume "dj_prev_inv D s" "pop (dj_minHeap s) = (Some e, h)" "h_node e \<in> set (dj_permanent s)"
  then show "dj_prev_inv D (s\<lparr> dj_minHeap := h \<rparr>)" using dj_prev_inv_skip by blast
next
  fix s e h
  assume "dj_prev_inv D s" "pop (dj_minHeap s) = (Some e, h)" "h_node e \<notin> set (dj_permanent s)"
  then show "dj_prev_inv D (extractMin es (h_node e) h s) \<and>
             h_node e \<in> set (dj_permanent (extractMin es (h_node e) h s))"
    using dj_prev_inv_extract by simp
next
  fix s :: dstate and c
  assume "dj_prev_inv D s \<and> c \<in> set (dj_permanent s)"
  then show "dj_prev_inv D (relax_neighbors es c s)" using dj_prev_inv_relax_neighbors by blast
qed simp_all

lemma dj_prev_inv_init:
  assumes "src \<in> node_id ` set ns"
  shows "dj_prev_inv (node_id ` set ns) (dijkstra_init ns src)"
  using assms unfolding dj_prev_inv_def dijkstra_init_def Let_def
  by (auto simp: init_distances_apply init_previous_apply set_push dom_def split: if_splits)

lemma dijkstra_terminates:
  assumes "src \<in> node_id ` set ns" "dest \<in> node_id ` set ns"
  shows "\<exists>steps. dijkstra ns es src dest = Some steps \<and> steps \<noteq> [] \<and>
            d_type (last steps) = Complete \<and> distinct (d_path (last steps))"
proof -
  let ?s = "dijkstra_loop es dest (dijkstra_init ns src)"
  have inv: "dj_prev_inv (node_id ` set ns) ?s"
    using dj_prev_inv_loop[OF dj_prev_inv_init[OF assms(1)]] .
  then have "dest \<in> dom (dj_previous ?s)" using assms(2) unfolding dj_prev_inv_def by blast
  then obtain p where p: "chain (dj_previous ?s) dest p" using dj_prev_inv_chain[OF inv] by blast
  then have "reconstruct (dj_previous ?s) (Some dest) [] = Some p"
    using chain_reconstruct[OF p, of "[]"] by simp
  then have "dijkstra ns es src dest = Some (dj_steps ?s @ [complete_step ?s dest p])"
    by (simp add: dijkstra_def Let_def)
  moreover have "distinct (d_path (complete_step ?s dest p))"
    using chain_distinct[OF p] by (simp add: complete_step_def)
  moreover have "d_type (complete_step ?s dest p) = Complete" by (simp add: complete_step_def)
  ultimately show ?thesis by simp
qed


end
